theory Spec2Isabelle
  imports Complex_Main "HOL-Library.Word" "HOL-Library.Multiset" "HOL-Library.Signed_Division"
begin

section \<open>Errors, assertions and checked array accesses\<close>

text \<open>
  The counters of \<^verbatim>\<open>simple_perf_counter\<close> are C++ objects with fixed-size member
  arrays. An access outside an array is undefined behaviour in C++; the model makes every
  access checked and turns an out-of-range index into the error \<open>OutOfBounds\<close>. A failed
  \<^verbatim>\<open>dassert\<close> is the error \<open>AssertFailed\<close>.
\<close>

datatype error = AssertFailed | OutOfBounds

abbreviation ebind :: "error + 'a \<Rightarrow> ('a \<Rightarrow> error + 'b) \<Rightarrow> error + 'b" where
  "ebind m f \<equiv> (case m of Inl e \<Rightarrow> Inl e | Inr x \<Rightarrow> f x)"

text \<open>
  Modelled from the spec: the macro \<^verbatim>\<open>dassert\<close> is defined outside the source file. The
  spec calls a violated contract "fail fast (abort/panic-equivalent)": a false condition ends
  the call with \<open>AssertFailed\<close>, a true one continues.
\<close>

definition dassert :: "bool \<Rightarrow> error + unit" where
  "dassert c = (if c then Inr () else Inl AssertFailed)"

definition rd :: "'a list \<Rightarrow> int \<Rightarrow> error + 'a" where
  "rd xs i = (if 0 \<le> i \<and> i < int (length xs) then Inr (xs ! nat i) else Inl OutOfBounds)"

definition wr :: "'a list \<Rightarrow> int \<Rightarrow> 'a \<Rightarrow> error + 'a list" where
  "wr xs i v = (if 0 \<le> i \<and> i < int (length xs) then Inr (xs[nat i := v]) else Inl OutOfBounds)"

text \<open>
  The partition step of \<^verbatim>\<open>select\<close> is run under a region \<open>(lo, hi)\<close> of indices it
  may touch: an access outside the region is reported like one outside the array.
  \<^verbatim>\<open>select\<close> itself passes the whole array (\<open>whole\<close>), where the region adds nothing to
  the array's own bounds.
\<close>

definition rd_in :: "int \<times> int \<Rightarrow> 'a list \<Rightarrow> int \<Rightarrow> error + 'a" where
  "rd_in w xs i = (if fst w \<le> i \<and> i \<le> snd w then rd xs i else Inl OutOfBounds)"

definition wr_in :: "int \<times> int \<Rightarrow> 'a list \<Rightarrow> int \<Rightarrow> 'a \<Rightarrow> error + 'a list" where
  "wr_in w xs i v = (if fst w \<le> i \<and> i \<le> snd w then wr xs i v else Inl OutOfBounds)"

definition whole :: "'a list \<Rightarrow> int \<times> int" where
  "whole xs = (0, int (length xs) - 1)"

section \<open>Constants\<close>

definition MAX_QUEUE_LENGTH :: int where
  "MAX_QUEUE_LENGTH = 50000"

text \<open>
  Modelled from the spec: the enumeration \<^verbatim>\<open>counter_percentile_type\<close> is declared
  outside the source file. The spec fixes its five tags as p50, p90, p95, p99, p99.9; they
  are numbered in that order, followed by the count.
\<close>

definition COUNTER_PERCENTILE_50 :: int where "COUNTER_PERCENTILE_50 = 0"
definition COUNTER_PERCENTILE_90 :: int where "COUNTER_PERCENTILE_90 = 1"
definition COUNTER_PERCENTILE_95 :: int where "COUNTER_PERCENTILE_95 = 2"
definition COUNTER_PERCENTILE_99 :: int where "COUNTER_PERCENTILE_99 = 3"
definition COUNTER_PERCENTILE_999 :: int where "COUNTER_PERCENTILE_999 = 4"
definition COUNTER_PERCENTILE_COUNT :: int where "COUNTER_PERCENTILE_COUNT = 5"

text \<open>
  \<^verbatim>\<open>(int)(tmp_num * p)\<close> for the decimal fraction \<open>p = a / b\<close>: the product truncated
  towards zero. The source multiplies in double precision; for the five fractions used and
  every 32-bit \<open>tmp_num\<close> the rounded product truncates to the same integer as the exact
  one, which is what the model computes.
\<close>

definition scaled :: "int \<Rightarrow> int \<Rightarrow> int \<Rightarrow> int" where
  "scaled n a b = (n * a) sdiv b"

section \<open>The number counter\<close>

record perf_counter_number =
  n_val :: "64 word"

definition number_increment :: "perf_counter_number \<Rightarrow> error + perf_counter_number" where
  "number_increment c = Inr (c\<lparr>n_val := n_val c + 1\<rparr>)"

definition number_decrement :: "perf_counter_number \<Rightarrow> error + perf_counter_number" where
  "number_decrement c = Inr (c\<lparr>n_val := n_val c - 1\<rparr>)"

definition number_add :: "perf_counter_number \<Rightarrow> 64 word \<Rightarrow> error + perf_counter_number" where
  "number_add c val = Inr (c\<lparr>n_val := n_val c + val\<rparr>)"

definition number_set :: "perf_counter_number \<Rightarrow> 64 word \<Rightarrow> error + perf_counter_number" where
  "number_set c val = ebind (dassert False) (\<lambda>_. Inr c)"

section \<open>The percentile counter\<close>

text \<open>
  One row of \<^verbatim>\<open>_calc_queue\<close>: the columns \<^verbatim>\<open>_LEFT\<close>, \<^verbatim>\<open>_RIGHT\<close>,
  \<^verbatim>\<open>_QLEFT\<close>, \<^verbatim>\<open>_QRIGHT\<close>.
\<close>

type_synonym task = "int \<times> int \<times> int \<times> int"

text \<open>
  The members of \<^verbatim>\<open>perf_counter_number_percentile\<close> that the counter operations use.
  \<open>c_tail\<close> is the \<^verbatim>\<open>std::atomic<int>\<close>, a 32-bit word read as two's complement.
\<close>

record perf_counter_number_percentile =
  c_tail :: "32 word"
  c_queue :: "64 word list"
  c_tmp :: "64 word list"
  c_mid_temp :: "64 word list"
  c_ask :: "64 word list"
  c_ans :: "64 word list"
  c_calc_queue :: "task list"

text \<open>
  The arrays have the sizes of their declarations. The constructor only sets
  \<^verbatim>\<open>_tail\<close>; the contents of the arrays of a new counter are whatever the memory holds.
\<close>

definition wf_counter :: "perf_counter_number_percentile \<Rightarrow> bool" where
  "wf_counter s \<longleftrightarrow>
     int (length (c_queue s)) = MAX_QUEUE_LENGTH \<and>
     int (length (c_tmp s)) = MAX_QUEUE_LENGTH \<and>
     int (length (c_mid_temp s)) = MAX_QUEUE_LENGTH \<and>
     int (length (c_ask s)) = COUNTER_PERCENTILE_COUNT \<and>
     int (length (c_ans s)) = COUNTER_PERCENTILE_COUNT \<and>
     int (length (c_calc_queue s)) = MAX_QUEUE_LENGTH * 10"

definition fresh_counter :: "perf_counter_number_percentile \<Rightarrow> bool" where
  "fresh_counter s \<longleftrightarrow> wf_counter s \<and> c_tail s = 0"

definition percentile_increment ::
  "perf_counter_number_percentile \<Rightarrow> error + perf_counter_number_percentile" where
  "percentile_increment s = ebind (dassert False) (\<lambda>_. Inr s)"

definition percentile_decrement ::
  "perf_counter_number_percentile \<Rightarrow> error + perf_counter_number_percentile" where
  "percentile_decrement s = ebind (dassert False) (\<lambda>_. Inr s)"

definition percentile_add ::
  "perf_counter_number_percentile \<Rightarrow> 64 word \<Rightarrow> error + perf_counter_number_percentile" where
  "percentile_add s val = ebind (dassert False) (\<lambda>_. Inr s)"

text \<open>
  \<^verbatim>\<open>set\<close>: \<^verbatim>\<open>auto idx = _tail++; _queue[idx % MAX_QUEUE_LENGTH] = val;\<close>.
  The increment of the atomic wraps around; \<^verbatim>\<open>%\<close> on \<^verbatim>\<open>int\<close> truncates towards zero
  (\<open>smod\<close>), so a negative \<open>idx\<close> gives a negative slot.
\<close>

definition percentile_set ::
  "perf_counter_number_percentile \<Rightarrow> 64 word \<Rightarrow> error + perf_counter_number_percentile" where
  "percentile_set s val =
     (let idx = sint (c_tail s); s1 = s\<lparr>c_tail := c_tail s + 1\<rparr> in
      ebind (wr (c_queue s1) (idx smod MAX_QUEUE_LENGTH) val) (\<lambda>q. Inr (s1\<lparr>c_queue := q\<rparr>)))"

text \<open>
  \<^verbatim>\<open>(double)_ans[type]\<close>: the conversion of a \<^verbatim>\<open>uint64_t\<close> to an IEEE 754
  double, which has 53 significant bits. A value below \<open>2 ^ 53\<close> is kept; a larger one
  is rounded to the nearest multiple of \<open>2 ^ k\<close>, where \<open>k\<close> is the number of bits in
  excess of 53 (\<open>round_shift\<close>), and a tie goes to the even multiple. The result is an
  integer in every case, at most \<open>2 ^ 64\<close>; \<open>to_double\<close> is that integer.
\<close>

function round_shift :: "int \<Rightarrow> nat" where
  "round_shift n = (if n < 2 ^ 53 then 0 else Suc (round_shift (n div 2)))"
  by pat_completeness auto
termination
  by (relation "measure nat") auto

declare round_shift.simps [simp del]

definition to_double :: "64 word \<Rightarrow> int" where
  "to_double v =
     (let n = uint v; q = 2 ^ round_shift n; d = n div q; r = n mod q in
      if 2 * r < q then d * q
      else if q < 2 * r then (d + 1) * q
      else if even d then d * q else (d + 1) * q)"

text \<open>
  \<^verbatim>\<open>get_percentile\<close> returns a \<^verbatim>\<open>double\<close>: the literal \<open>-1\<close>, or the unsigned
  64-bit answer converted. The model returns the value of that double.
\<close>

definition get_percentile :: "perf_counter_number_percentile \<Rightarrow> int \<Rightarrow> error + int" where
  "get_percentile s type =
     (if c_tail s = 0 then Inr (- 1)
      else if type < 0 \<or> type \<ge> COUNTER_PERCENTILE_COUNT then
        ebind (dassert False) (\<lambda>_. Inr (- 1))
      else ebind (rd (c_ans s) type) (\<lambda>v. Inr (to_double v)))"

fun record_all ::
  "perf_counter_number_percentile \<Rightarrow> 64 word list \<Rightarrow> error + perf_counter_number_percentile" where
  "record_all s [] = Inr s"
| "record_all s (v # vs) = ebind (percentile_set s v) (\<lambda>s'. record_all s' vs)"

subsection \<open>\<^verbatim>\<open>find_mid\<close>\<close>

text \<open>
  The innermost loop of the insertion sort:
  \<^verbatim>\<open>for (j = i - 1; (j >= index) && (_mid_temp[j] > k); j--) _mid_temp[j + 1] = _mid_temp[j];\<close>
  It returns the array and the final \<open>j\<close>.
\<close>

function find_mid_shift ::
  "64 word list \<Rightarrow> int \<Rightarrow> int \<Rightarrow> 64 word \<Rightarrow> error + (64 word list \<times> int)" where
  "find_mid_shift m index j k =
     (if j \<ge> index then
        ebind (rd m j) (\<lambda>v.
          if v > k then ebind (wr m (j + 1) v) (\<lambda>m'. find_mid_shift m' index (j - 1) k)
          else Inr (m, j))
      else Inr (m, j))"
  by pat_completeness auto
termination
  by (relation "measure (\<lambda>(m, index, j, k). nat (j + 1 - index))") auto

text \<open>
  \<^verbatim>\<open>for (int i = index; i < index + remain_num; i++)\<close>: insert \<^verbatim>\<open>_mid_temp[i]\<close>
  into the sorted run before it.
\<close>

function find_mid_insert :: "64 word list \<Rightarrow> int \<Rightarrow> int \<Rightarrow> int \<Rightarrow> error + 64 word list" where
  "find_mid_insert m index remain_num i =
     (if i < index + remain_num then
        ebind (rd m i) (\<lambda>k.
        ebind (find_mid_shift m index (i - 1) k) (\<lambda>(m1, j).
        ebind (wr m1 (j + 1) k) (\<lambda>m2.
          find_mid_insert m2 index remain_num (i + 1))))
      else Inr m)"
  by pat_completeness auto
termination
  by (relation "measure (\<lambda>(m, index, remain_num, i). nat (index + remain_num - i))") auto

text \<open>
  \<^verbatim>\<open>for (index = left; index < right; index += 5)\<close>: sort each run and store its
  median at \<^verbatim>\<open>_mid_temp[(index - left) / 5]\<close>.
\<close>

function find_mid_groups :: "64 word list \<Rightarrow> int \<Rightarrow> int \<Rightarrow> int \<Rightarrow> error + 64 word list" where
  "find_mid_groups m left right index =
     (if index < right then
        (let remain_num = (if index + 5 \<ge> right then right - index + 1 else 5) in
         ebind (find_mid_insert m index remain_num index) (\<lambda>m1.
         ebind (rd m1 (index + remain_num sdiv 2)) (\<lambda>v.
         ebind (wr m1 ((index - left) sdiv 5) v) (\<lambda>m2.
           find_mid_groups m2 left right (index + 5)))))
      else Inr m)"
  by pat_completeness auto
termination
  by (relation "measure (\<lambda>(m, left, right, index). nat (right - index))") auto

lemma sdiv5_less: "d \<noteq> 0 \<Longrightarrow> \<bar>(d - 1) sdiv 5\<bar> < \<bar>d :: int\<bar>"
  by (simp add: signed_divide_int_def abs_mult abs_sgn_eq) linarith

function find_mid :: "64 word list \<Rightarrow> int \<Rightarrow> int \<Rightarrow> error + (64 word \<times> 64 word list)" where
  "find_mid m left right =
     (if left = right then ebind (rd m left) (\<lambda>v. Inr (v, m))
      else ebind (find_mid_groups m left right left) (\<lambda>m1.
             find_mid m1 0 ((right - left - 1) sdiv 5)))"
  by pat_completeness auto
termination
proof (relation "measure (\<lambda>(m, left, right). nat \<bar>right - left\<bar>)", goal_cases)
  case 1
  show ?case by simp
next
  case (2 m left right m1)
  then have "right - left \<noteq> 0" by simp
  from sdiv5_less [OF this] show ?case by simp
qed

subsection \<open>The loops of \<^verbatim>\<open>select\<close>\<close>

text \<open>
  The case \<^verbatim>\<open>left == right\<close>:
  \<^verbatim>\<open>for (i = qleft; i <= qright; i++) if (_ask[i] == 1) _ans[i] = _tmp[left]; else dassert(false, ...);\<close>
\<close>

function select_answers ::
  "64 word list \<Rightarrow> 64 word list \<Rightarrow> 64 word list \<Rightarrow> int \<Rightarrow> int \<Rightarrow> int \<Rightarrow> error + 64 word list" where
  "select_answers askl ansl tmpl left i qright =
     (if i \<le> qright then
        ebind (rd askl i) (\<lambda>a.
          if a = 1 then
            ebind (rd tmpl left) (\<lambda>v.
            ebind (wr ansl i v) (\<lambda>ansl'.
              select_answers askl ansl' tmpl left (i + 1) qright))
          else ebind (dassert False) (\<lambda>_.
              select_answers askl ansl tmpl left (i + 1) qright))
      else Inr ansl)"
  by pat_completeness auto
termination
  by (relation "measure (\<lambda>(askl, ansl, tmpl, left, i, qright). nat (qright + 1 - i))") auto

text \<open>\<^verbatim>\<open>for (i = left; i <= right; i++) _mid_temp[i] = _tmp[i];\<close>\<close>

function select_copy ::
  "64 word list \<Rightarrow> 64 word list \<Rightarrow> int \<Rightarrow> int \<Rightarrow> error + 64 word list" where
  "select_copy tmpl m i right =
     (if i \<le> right then
        ebind (rd tmpl i) (\<lambda>v.
        ebind (wr m i v) (\<lambda>m'.
          select_copy tmpl m' (i + 1) right))
      else Inr m)"
  by pat_completeness auto
termination
  by (relation "measure (\<lambda>(tmpl, m, i, right). nat (right + 1 - i))") auto

text \<open>
  \<^verbatim>\<open>for (index = left; index <= right; index++) if (_tmp[index] == mid) break;\<close>
  The result is the final \<open>index\<close>: \<open>right + 1\<close> when no element equals \<open>mid\<close>.
\<close>

function select_locate :: "64 word list \<Rightarrow> 64 word \<Rightarrow> int \<Rightarrow> int \<Rightarrow> error + int" where
  "select_locate tmpl mid index right =
     (if index \<le> right then
        ebind (rd tmpl index) (\<lambda>v.
          if v = mid then Inr index else select_locate tmpl mid (index + 1) right)
      else Inr index)"
  by pat_completeness auto
termination
  by (relation "measure (\<lambda>(tmpl, mid, index, right). nat (right + 1 - index))") auto

text \<open>\<^verbatim>\<open>while ((i <= j) && (_tmp[j] > mid)) j--;\<close>\<close>

function partition_down ::
  "int \<times> int \<Rightarrow> 64 word list \<Rightarrow> 64 word \<Rightarrow> int \<Rightarrow> int \<Rightarrow> error + int" where
  "partition_down w tmpl mid i j =
     (if i \<le> j then
        ebind (rd_in w tmpl j) (\<lambda>v.
          if v > mid then partition_down w tmpl mid i (j - 1) else Inr j)
      else Inr j)"
  by pat_completeness auto
termination
  by (relation "measure (\<lambda>(w, tmpl, mid, i, j). nat (j + 1 - i))") auto

text \<open>\<^verbatim>\<open>while ((i <= j) && (_tmp[i] < mid)) i++;\<close>\<close>

function partition_up ::
  "int \<times> int \<Rightarrow> 64 word list \<Rightarrow> 64 word \<Rightarrow> int \<Rightarrow> int \<Rightarrow> error + int" where
  "partition_up w tmpl mid i j =
     (if i \<le> j then
        ebind (rd_in w tmpl i) (\<lambda>v.
          if v < mid then partition_up w tmpl mid (i + 1) j else Inr i)
      else Inr i)"
  by pat_completeness auto
termination
  by (relation "measure (\<lambda>(w, tmpl, mid, i, j). nat (j + 1 - i))") auto

text \<open>
  \<^verbatim>\<open>if (i <= j) _tmp[index] = _tmp[j], index = j--;\<close> and its mirror image
  \<^verbatim>\<open>if (i <= j) _tmp[index] = _tmp[i], index = i++;\<close>: the element at \<open>k\<close> moves
  into the hole at \<open>index\<close>, and \<open>k\<close> becomes the hole.
\<close>

definition partition_move ::
  "int \<times> int \<Rightarrow> 64 word list \<Rightarrow> int \<Rightarrow> int \<Rightarrow> error + 64 word list" where
  "partition_move w tmpl index k =
     ebind (rd_in w tmpl k) (\<lambda>v. wr_in w tmpl index v)"

text \<open>
  The loop \<^verbatim>\<open>for (i = left, j = right; i <= j;) { ... }\<close>; it returns the array and
  the final \<open>index\<close>.
\<close>

function partition_loop ::
  "int \<times> int \<Rightarrow> 64 word list \<Rightarrow> 64 word \<Rightarrow> int \<Rightarrow> int \<Rightarrow> int \<Rightarrow> error + (64 word list \<times> int)" where
  "partition_loop w tmpl mid index i j =
     (if i \<le> j then
        ebind (partition_down w tmpl mid i j) (\<lambda>j1.
        ebind (if i \<le> j1
               then ebind (partition_move w tmpl index j1) (\<lambda>t. Inr (t, j1, j1 - 1))
               else Inr (tmpl, index, j1)) (\<lambda>(t1, index1, j2).
        ebind (partition_up w t1 mid i j2) (\<lambda>i1.
        ebind (if i1 \<le> j2
               then ebind (partition_move w t1 index1 i1) (\<lambda>t. Inr (t, i1, i1 + 1))
               else Inr (t1, index1, i1)) (\<lambda>(t2, index2, i2).
          partition_loop w t2 mid index2 i2 j2))))
      else Inr (tmpl, index))"
  by pat_completeness auto

lemma partition_down_le: "partition_down w tmpl mid i j = Inr j1 \<Longrightarrow> j1 \<le> j"
proof (induction w tmpl mid i j rule: partition_down.induct)
  case (1 w tmpl mid i j)
  show ?case
  proof (cases "i \<le> j")
    case True
    then obtain v where v: "rd_in w tmpl j = Inr v"
      using "1.prems" by (auto split: sum.splits)
    show ?thesis
    proof (cases "v > mid")
      case True
      with \<open>i \<le> j\<close> v "1.prems" have "partition_down w tmpl mid i (j - 1) = Inr j1" by simp
      from "1.IH" [OF \<open>i \<le> j\<close> v True this] show ?thesis by simp
    next
      case False
      with \<open>i \<le> j\<close> v "1.prems" show ?thesis by simp
    qed
  next
    case False
    with "1.prems" show ?thesis by simp
  qed
qed

lemma partition_up_ge: "partition_up w tmpl mid i j = Inr i1 \<Longrightarrow> i \<le> i1"
proof (induction w tmpl mid i j rule: partition_up.induct)
  case (1 w tmpl mid i j)
  show ?case
  proof (cases "i \<le> j")
    case True
    then obtain v where v: "rd_in w tmpl i = Inr v"
      using "1.prems" by (auto split: sum.splits)
    show ?thesis
    proof (cases "v < mid")
      case True
      with \<open>i \<le> j\<close> v "1.prems" have "partition_up w tmpl mid (i + 1) j = Inr i1" by simp
      from "1.IH" [OF \<open>i \<le> j\<close> v True this] show ?thesis by simp
    next
      case False
      with \<open>i \<le> j\<close> v "1.prems" show ?thesis by simp
    qed
  next
    case False
    with "1.prems" show ?thesis by simp
  qed
qed

termination partition_loop
proof (relation "measure (\<lambda>(w, tmpl, mid, index, i, j). nat (j + 1 - i))", goal_cases)
  case 1
  show ?case by simp
next
  case (2 w tmpl mid index i j j1 r1 t1 p1 index1 j2 i1 r2 t2 p2 index2 i2)
  have a: "j1 \<le> j" using 2(2) by (rule partition_down_le)
  have b: "i \<le> i1" using 2(6) by (rule partition_up_ge)
  have c: "j2 < j"
    using 2(1) a 2(3) 2(4) [symmetric] 2(5) [symmetric]
    by (auto split: if_splits sum.splits)
  have d: "i1 \<le> i2"
    using 2(7) 2(8) [symmetric] 2(9) [symmetric]
    by (auto split: if_splits sum.splits)
  from 2(1) b c d show ?case by simp
qed

text \<open>
  The partition step of \<^verbatim>\<open>select\<close>, from \<^verbatim>\<open>_tmp[index] = _tmp[left]\<close> to
  \<^verbatim>\<open>_tmp[index] = mid\<close>: the element at \<open>left\<close> moves to where the pivot was found,
  \<open>left\<close> becomes the hole, and the loop moves the hole to the pivot's final place.
\<close>

definition select_partition ::
  "int \<times> int \<Rightarrow> 64 word list \<Rightarrow> 64 word \<Rightarrow> int \<Rightarrow> int \<Rightarrow> int \<Rightarrow> error + (64 word list \<times> int)" where
  "select_partition w tmpl mid left right index0 =
     ebind (partition_move w tmpl index0 left) (\<lambda>t0.
     ebind (partition_loop w t0 mid left left right) (\<lambda>(t1, index).
     ebind (wr_in w t1 index mid) (\<lambda>t2. Inr (t2, index))))"

text \<open>
  \<^verbatim>\<open>for (i = qleft; (i <= qright) && (_ask[i] < now); i++);\<close> The comparison is
  between \<^verbatim>\<open>uint64_t\<close> and \<^verbatim>\<open>int\<close>: \<open>now\<close> is converted to 64-bit unsigned.
\<close>

function select_skip :: "64 word list \<Rightarrow> int \<Rightarrow> int \<Rightarrow> int \<Rightarrow> error + int" where
  "select_skip askl now i qright =
     (if i \<le> qright then
        ebind (rd askl i) (\<lambda>a.
          if a < word_of_int now then select_skip askl now (i + 1) qright else Inr i)
      else Inr i)"
  by pat_completeness auto
termination
  by (relation "measure (\<lambda>(askl, now, i, qright). nat (qright + 1 - i))") auto

text \<open>\<^verbatim>\<open>for (j = i; j <= qright; j++) _ask[j] -= now;\<close>\<close>

function select_sub :: "64 word list \<Rightarrow> int \<Rightarrow> int \<Rightarrow> int \<Rightarrow> error + 64 word list" where
  "select_sub askl now j qright =
     (if j \<le> qright then
        ebind (rd askl j) (\<lambda>a.
        ebind (wr askl j (a - word_of_int now)) (\<lambda>askl'.
          select_sub askl' now (j + 1) qright))
      else Inr askl)"
  by pat_completeness auto
termination
  by (relation "measure (\<lambda>(askl, now, j, qright). nat (qright + 1 - j))") auto

text \<open>
  \<^verbatim>\<open>for (j = i; (j <= qright) && (_ask[j] == 0); j++) _ask[j]++;\<close> It returns the
  array and the final \<open>j\<close>.
\<close>

function select_bump :: "64 word list \<Rightarrow> int \<Rightarrow> int \<Rightarrow> error + (64 word list \<times> int)" where
  "select_bump askl j qright =
     (if j \<le> qright then
        ebind (rd askl j) (\<lambda>a.
          if a = 0 then
            ebind (wr askl j (a + 1)) (\<lambda>askl'. select_bump askl' (j + 1) qright)
          else Inr (askl, j))
      else Inr (askl, j))"
  by pat_completeness auto
termination
  by (relation "measure (\<lambda>(askl, j, qright). nat (qright + 1 - j))") auto

definition insert_calc_queue ::
  "task list \<Rightarrow> int \<Rightarrow> int \<Rightarrow> int \<Rightarrow> int \<Rightarrow> int \<Rightarrow> error + (task list \<times> int)" where
  "insert_calc_queue cq left right qleft qright calc_tail =
     (let calc_tail' = calc_tail + 1 in
      ebind (wr cq calc_tail' (left, right, qleft, qright)) (\<lambda>cq'. Inr (cq', calc_tail')))"

subsection \<open>\<^verbatim>\<open>select\<close> and \<^verbatim>\<open>calc\<close>\<close>

text \<open>
  The body of \<^verbatim>\<open>select\<close> for \<^verbatim>\<open>left != right\<close> in four parts. First the
  pivot: copy the range to \<^verbatim>\<open>_mid_temp\<close>, call \<^verbatim>\<open>find_mid\<close>, and look for the
  pivot in \<^verbatim>\<open>_tmp\<close>. The result is the pivot, the new \<^verbatim>\<open>_mid_temp\<close> and the
  index found.
\<close>

definition select_pivot ::
  "64 word list \<Rightarrow> 64 word list \<Rightarrow> int \<Rightarrow> int \<Rightarrow> error + (64 word \<times> 64 word list \<times> int)" where
  "select_pivot tmpl m left right =
     ebind (select_copy tmpl m left right) (\<lambda>m0.
     ebind (find_mid m0 left right) (\<lambda>(mid, m1).
     ebind (select_locate tmpl mid left right) (\<lambda>index0.
       Inr (mid, m1, index0))))"

text \<open>
  After the partition step, the ranks: those below \<open>now\<close> stay, the others are reduced
  by \<open>now\<close>, and those that become 0 are set to 1. The result is the new
  \<^verbatim>\<open>_ask\<close> and the final \<open>i\<close> and \<open>j\<close>.
\<close>

definition select_ranks ::
  "64 word list \<Rightarrow> int \<Rightarrow> int \<Rightarrow> int \<Rightarrow> error + (64 word list \<times> int \<times> int)" where
  "select_ranks askl now qleft qright =
     ebind (select_skip askl now qleft qright) (\<lambda>i.
     ebind (select_sub askl now i qright) (\<lambda>a1.
     ebind (select_bump a1 i qright) (\<lambda>(a2, j).
       Inr (a2, i, j))))"

text \<open>The three calls of \<^verbatim>\<open>insert_calc_queue\<close> that end \<^verbatim>\<open>select\<close>.\<close>

definition select_push ::
  "task list \<Rightarrow> int \<Rightarrow> int \<Rightarrow> int \<Rightarrow> int \<Rightarrow> int \<Rightarrow> int \<Rightarrow> int \<Rightarrow> int \<Rightarrow>
   error + (task list \<times> int)" where
  "select_push cq left right index qleft qright i j calc_tail =
     ebind (insert_calc_queue cq left (index - 1) qleft (i - 1) calc_tail) (\<lambda>(cq1, ct1).
     ebind (insert_calc_queue cq1 index index i (j - 1) ct1) (\<lambda>(cq2, ct2).
       insert_calc_queue cq2 (index + 1) right j qright ct2))"

text \<open>
  \<^verbatim>\<open>select\<close> takes the counter and \<^verbatim>\<open>calc_tail\<close> (passed by reference in the
  source) and returns both.
\<close>

definition select ::
  "perf_counter_number_percentile \<Rightarrow> int \<Rightarrow> int \<Rightarrow> int \<Rightarrow> int \<Rightarrow> int \<Rightarrow>
   error + (perf_counter_number_percentile \<times> int)" where
  "select s left right qleft qright calc_tail =
     (if qleft > qright then Inr (s, calc_tail)
      else if left = right then
        ebind (select_answers (c_ask s) (c_ans s) (c_tmp s) left qleft qright) (\<lambda>a.
          Inr (s\<lparr>c_ans := a\<rparr>, calc_tail))
      else
        ebind (select_pivot (c_tmp s) (c_mid_temp s) left right) (\<lambda>(mid, m1, index0).
        ebind (select_partition (whole (c_tmp s)) (c_tmp s) mid left right index0)
          (\<lambda>(t, index).
        ebind (select_ranks (c_ask s) (index - left + 1) qleft qright) (\<lambda>(a2, i, j).
        ebind (select_push (c_calc_queue s) left right index qleft qright i j calc_tail)
          (\<lambda>(cq3, ct3).
          Inr (s\<lparr>c_tmp := t, c_mid_temp := m1, c_ask := a2, c_calc_queue := cq3\<rparr>,
               ct3))))))"

text \<open>\<^verbatim>\<open>for (int i = 0; i < tmp_num; i++) _tmp[i] = _queue[i];\<close>\<close>

function calc_copy ::
  "64 word list \<Rightarrow> 64 word list \<Rightarrow> int \<Rightarrow> int \<Rightarrow> error + 64 word list" where
  "calc_copy q t i tmp_num =
     (if i < tmp_num then
        ebind (rd q i) (\<lambda>v.
        ebind (wr t i v) (\<lambda>t'.
          calc_copy q t' (i + 1) tmp_num))
      else Inr t)"
  by pat_completeness auto
termination
  by (relation "measure (\<lambda>(q, t, i, tmp_num). nat (tmp_num - i))") auto

text \<open>
  The worklist loop of \<^verbatim>\<open>calc\<close>:
  \<^verbatim>\<open>for (l = 1; l <= r; l++) select(_calc_queue[l][_LEFT], ..., r);\<close>
  It returns the counter and the final \<open>r\<close>.
\<close>

function calc_loop ::
  "perf_counter_number_percentile \<Rightarrow> int \<Rightarrow> int \<Rightarrow>
   error + (perf_counter_number_percentile \<times> int)" where
  "calc_loop s l r =
     (if l \<le> r then
        ebind (rd (c_calc_queue s) l) (\<lambda>(left, right, qleft, qright).
        ebind (select s left right qleft qright r) (\<lambda>(s', r').
          calc_loop s' (l + 1) r'))
      else Inr (s, r))"
  by pat_completeness auto

lemma wr_length: "wr xs i v = Inr ys \<Longrightarrow> length ys = length xs"
  by (auto simp: wr_def split: if_splits)

lemma insert_calc_queue_length:
  "insert_calc_queue cq a b c d ct = Inr (cq', ct') \<Longrightarrow> length cq' = length cq"
  by (auto simp: insert_calc_queue_def Let_def wr_def split: if_splits)

lemma ebindE:
  assumes "ebind m f = Inr y"
  obtains x where "m = Inr x" "f x = Inr y"
  using assms by (cases m) simp_all

lemma select_push_length:
  "select_push cq left right index qleft qright i j ct = Inr (cq', ct') \<Longrightarrow>
   length cq' = length cq"
  unfolding select_push_def
  by (auto split: sum.splits dest!: insert_calc_queue_length)

lemma select_cases:
  assumes "select s left right qleft qright ct = Inr (s', ct')"
  obtains
    (empty) "qleft > qright" "s' = s" "ct' = ct"
  | (single) a where "qleft \<le> qright" "left = right"
      "select_answers (c_ask s) (c_ans s) (c_tmp s) left qleft qright = Inr a"
      "s' = s\<lparr>c_ans := a\<rparr>" "ct' = ct"
  | (split) mid m1 index0 t index a2 i j cq3 where "qleft \<le> qright" "left \<noteq> right"
      "select_pivot (c_tmp s) (c_mid_temp s) left right = Inr (mid, m1, index0)"
      "select_partition (whole (c_tmp s)) (c_tmp s) mid left right index0 = Inr (t, index)"
      "select_ranks (c_ask s) (index - left + 1) qleft qright = Inr (a2, i, j)"
      "select_push (c_calc_queue s) left right index qleft qright i j ct = Inr (cq3, ct')"
      "s' = s\<lparr>c_tmp := t, c_mid_temp := m1, c_ask := a2, c_calc_queue := cq3\<rparr>"
proof (cases "qleft > qright")
  case True
  with assms empty show ?thesis by (simp add: select_def)
next
  case q: False
  show ?thesis
  proof (cases "left = right")
    case True
    from assms q True have
      "ebind (select_answers (c_ask s) (c_ans s) (c_tmp s) left qleft qright) (\<lambda>a.
          Inr (s\<lparr>c_ans := a\<rparr>, ct)) = Inr (s', ct')"
      by (simp add: select_def)
    then obtain a where "select_answers (c_ask s) (c_ans s) (c_tmp s) left qleft qright = Inr a"
      "Inr (s\<lparr>c_ans := a\<rparr>, ct) = (Inr (s', ct') :: error + _)"
      by (rule ebindE)
    with q True single show ?thesis by simp
  next
    case False
    from assms q False have
      "ebind (select_pivot (c_tmp s) (c_mid_temp s) left right) (\<lambda>(mid, m1, index0).
        ebind (select_partition (whole (c_tmp s)) (c_tmp s) mid left right index0)
          (\<lambda>(t, index).
        ebind (select_ranks (c_ask s) (index - left + 1) qleft qright) (\<lambda>(a2, i, j).
        ebind (select_push (c_calc_queue s) left right index qleft qright i j ct)
          (\<lambda>(cq3, ct3).
          Inr (s\<lparr>c_tmp := t, c_mid_temp := m1, c_ask := a2, c_calc_queue := cq3\<rparr>,
               ct3))))) = Inr (s', ct')"
      by (simp add: select_def)
    then obtain r1 where 1: "select_pivot (c_tmp s) (c_mid_temp s) left right = Inr r1"
      and e1: "(case r1 of (mid, m1, index0) \<Rightarrow>
        ebind (select_partition (whole (c_tmp s)) (c_tmp s) mid left right index0)
          (\<lambda>(t, index).
        ebind (select_ranks (c_ask s) (index - left + 1) qleft qright) (\<lambda>(a2, i, j).
        ebind (select_push (c_calc_queue s) left right index qleft qright i j ct)
          (\<lambda>(cq3, ct3).
          Inr (s\<lparr>c_tmp := t, c_mid_temp := m1, c_ask := a2, c_calc_queue := cq3\<rparr>,
               ct3))))) = Inr (s', ct')"
      by (rule ebindE)
    obtain mid m1 index0 where r1: "r1 = (mid, m1, index0)" by (cases r1)
    from e1 [unfolded r1 prod.case] obtain r2 where
      2: "select_partition (whole (c_tmp s)) (c_tmp s) mid left right index0 = Inr r2"
      and e2: "(case r2 of (t, index) \<Rightarrow>
        ebind (select_ranks (c_ask s) (index - left + 1) qleft qright) (\<lambda>(a2, i, j).
        ebind (select_push (c_calc_queue s) left right index qleft qright i j ct)
          (\<lambda>(cq3, ct3).
          Inr (s\<lparr>c_tmp := t, c_mid_temp := m1, c_ask := a2, c_calc_queue := cq3\<rparr>,
               ct3)))) = Inr (s', ct')"
      by (rule ebindE)
    obtain t index where r2: "r2 = (t, index)" by (cases r2)
    from e2 [unfolded r2 prod.case] obtain r3 where
      3: "select_ranks (c_ask s) (index - left + 1) qleft qright = Inr r3"
      and e3: "(case r3 of (a2, i, j) \<Rightarrow>
        ebind (select_push (c_calc_queue s) left right index qleft qright i j ct)
          (\<lambda>(cq3, ct3).
          Inr (s\<lparr>c_tmp := t, c_mid_temp := m1, c_ask := a2, c_calc_queue := cq3\<rparr>,
               ct3))) = Inr (s', ct')"
      by (rule ebindE)
    obtain a2 i j where r3: "r3 = (a2, i, j)" by (cases r3)
    from e3 [unfolded r3 prod.case] obtain r4 where
      4: "select_push (c_calc_queue s) left right index qleft qright i j ct = Inr r4"
      and e4: "(case r4 of (cq3, ct3) \<Rightarrow>
          Inr (s\<lparr>c_tmp := t, c_mid_temp := m1, c_ask := a2, c_calc_queue := cq3\<rparr>,
               ct3)) = (Inr (s', ct') :: error + _)"
      by (rule ebindE)
    obtain cq3 ct3 where r4: "r4 = (cq3, ct3)" by (cases r4)
    from e4 [unfolded r4 prod.case] have
      "s' = s\<lparr>c_tmp := t, c_mid_temp := m1, c_ask := a2, c_calc_queue := cq3\<rparr>" "ct3 = ct'"
      by simp_all
    with q False 1 2 3 4 r1 r2 r3 r4 split show ?thesis by simp
  qed
qed

lemma select_length_calc_queue:
  assumes "select s left right qleft qright ct = Inr (s', ct')"
  shows "length (c_calc_queue s') = length (c_calc_queue s)"
  using assms
proof (cases rule: select_cases)
  case (split mid m1 index0 t index a2 i j cq3)
  then show ?thesis by (simp add: select_push_length)
qed simp_all

termination calc_loop
proof (relation "measure (\<lambda>(s, l, r). length (c_calc_queue s) - nat l)", goal_cases)
  case 1
  show ?case by simp
next
  case (2 s l r tk left p1 right p2 qleft qright res s' r')
  from 2(2) have "0 \<le> l" "l < int (length (c_calc_queue s))"
    by (auto simp: rd_def split: if_splits)
  moreover from 2(6) 2(7) have "length (c_calc_queue s') = length (c_calc_queue s)"
    using select_length_calc_queue by metis
  ultimately show ?case by simp
qed

text \<open>
  \<^verbatim>\<open>calc\<close> up to the loop: \<^verbatim>\<open>tmp_num\<close> is \<^verbatim>\<open>_tail\<close> capped at the
  capacity; the first \<^verbatim>\<open>tmp_num\<close> slots are copied to \<^verbatim>\<open>_tmp\<close>; the five ranks
  are \<^verbatim>\<open>(int)(tmp_num * p) + 1\<close>, stored as 64-bit unsigned; the first task covers
  the whole range and all five ranks. The result is the counter and \<open>r\<close>.
\<close>

definition calc_prepare ::
  "perf_counter_number_percentile \<Rightarrow> error + (perf_counter_number_percentile \<times> int)" where
  "calc_prepare s =
     (let tmp_num = (if sint (c_tail s) > MAX_QUEUE_LENGTH then MAX_QUEUE_LENGTH
                     else sint (c_tail s)) in
      ebind (calc_copy (c_queue s) (c_tmp s) 0 tmp_num) (\<lambda>t.
      ebind (wr (c_ask s) COUNTER_PERCENTILE_50 (word_of_int (scaled tmp_num 1 2 + 1))) (\<lambda>a0.
      ebind (wr a0 COUNTER_PERCENTILE_90 (word_of_int (scaled tmp_num 9 10 + 1))) (\<lambda>a1.
      ebind (wr a1 COUNTER_PERCENTILE_95 (word_of_int (scaled tmp_num 19 20 + 1))) (\<lambda>a2.
      ebind (wr a2 COUNTER_PERCENTILE_99 (word_of_int (scaled tmp_num 99 100 + 1))) (\<lambda>a3.
      ebind (wr a3 COUNTER_PERCENTILE_999 (word_of_int (scaled tmp_num 999 1000 + 1))) (\<lambda>a4.
      ebind (insert_calc_queue (c_calc_queue s) 0 (tmp_num - 1) 0
               (COUNTER_PERCENTILE_COUNT - 1) 0) (\<lambda>(cq, r).
        Inr (s\<lparr>c_tmp := t, c_ask := a4, c_calc_queue := cq\<rparr>, r)))))))))"

text \<open>\<^verbatim>\<open>calc\<close>: nothing when \<^verbatim>\<open>_tail == 0\<close>, else the preparation and the loop.\<close>

definition calc :: "perf_counter_number_percentile \<Rightarrow> error + perf_counter_number_percentile" where
  "calc s =
     (if c_tail s = 0 then Inr s
      else
        ebind (calc_prepare s) (\<lambda>(s1, r).
        ebind (calc_loop s1 1 r) (\<lambda>(s', r'). Inr s')))"

text \<open>
  One iteration of the loop of \<^verbatim>\<open>calc\<close>: the call of \<^verbatim>\<open>select\<close> on row \<open>l\<close> of
  the worklist, and \<^verbatim>\<open>l++\<close>.
\<close>

definition calc_step ::
  "perf_counter_number_percentile \<Rightarrow> int \<Rightarrow> int \<Rightarrow>
   error + (perf_counter_number_percentile \<times> int \<times> int)" where
  "calc_step s l r =
     ebind (rd (c_calc_queue s) l) (\<lambda>(left, right, qleft, qright).
     ebind (select s left right qleft qright r) (\<lambda>(s', r'). Inr (s', l + 1, r')))"

text \<open>
  \<^verbatim>\<open>calc\<close> runs on the thread of the timer while other threads call
  \<^verbatim>\<open>get_percentile\<close>; no lock orders the two, and \<^verbatim>\<open>_ans\<close> is a plain array.
  \<open>calc_steps n\<close> is the loop of \<^verbatim>\<open>calc\<close> stopped after \<open>n\<close> iterations (or at its end,
  when that comes first), and \<open>calc_in_flight n s\<close> is the counter as a reader finds it
  at that moment of the recompute.
\<close>

fun calc_steps ::
  "nat \<Rightarrow> perf_counter_number_percentile \<Rightarrow> int \<Rightarrow> int \<Rightarrow>
   error + (perf_counter_number_percentile \<times> int \<times> int)" where
  "calc_steps 0 s l r = Inr (s, l, r)"
| "calc_steps (Suc n) s l r =
     (if l \<le> r then ebind (calc_step s l r) (\<lambda>(s', l', r'). calc_steps n s' l' r')
      else Inr (s, l, r))"

definition calc_in_flight ::
  "nat \<Rightarrow> perf_counter_number_percentile \<Rightarrow> error + perf_counter_number_percentile" where
  "calc_in_flight n s =
     (if c_tail s = 0 then Inr s
      else
        ebind (calc_prepare s) (\<lambda>(s1, r).
        ebind (calc_steps n s1 1 r) (\<lambda>(s', l', r'). Inr s')))"

declare find_mid_shift.simps [simp del] find_mid_insert.simps [simp del]
  find_mid_groups.simps [simp del] find_mid.simps [simp del]
  select_answers.simps [simp del] select_copy.simps [simp del] select_locate.simps [simp del]
  partition_down.simps [simp del] partition_up.simps [simp del] partition_loop.simps [simp del]
  select_skip.simps [simp del] select_sub.simps [simp del] select_bump.simps [simp del]
  calc_copy.simps [simp del] calc_loop.simps [simp del]

text \<open>
  A counter as the constructor leaves it, with all memory zero; the concrete input of the
  witnesses.
\<close>

definition example_counter :: perf_counter_number_percentile where
  "example_counter =
     \<lparr>c_tail = 0, c_queue = replicate 50000 0, c_tmp = replicate 50000 0,
      c_mid_temp = replicate 50000 0, c_ask = replicate 5 0, c_ans = replicate 5 0,
      c_calc_queue = replicate 500000 (0, 0, 0, 0)\<rparr>"

text \<open>
  Two epochs on the example counter: the sample 1 and a recompute, then the samples 5 and 9.
  \<open>read_tag\<close> is \<^verbatim>\<open>get_percentile\<close> on the outcome of such a run.
\<close>

definition two_epochs :: "error + perf_counter_number_percentile" where
  "two_epochs =
     ebind (record_all example_counter [1]) (\<lambda>s1.
     ebind (calc s1) (\<lambda>s2. record_all s2 [5, 9]))"

definition read_tag :: "error + perf_counter_number_percentile \<Rightarrow> int \<Rightarrow> error + int" where
  "read_tag m t = ebind m (\<lambda>s. get_percentile s t)"

section \<open>The ranks as the specification states them\<close>

text \<open>
  The fraction of each percentile tag, and the rank the specification derives from it for
  \<open>n\<close> samples: \<open>floor (n * p) + 1\<close>, counted from 1 in the sorted samples.
\<close>

definition percentile :: "int \<Rightarrow> real" where
  "percentile t =
     (if t = COUNTER_PERCENTILE_50 then 0.5 else if t = COUNTER_PERCENTILE_90 then 0.90
      else if t = COUNTER_PERCENTILE_95 then 0.95 else if t = COUNTER_PERCENTILE_99 then 0.99
      else 0.999)"

definition spec_rank :: "nat \<Rightarrow> int \<Rightarrow> nat" where
  "spec_rank n t = nat \<lfloor>real n * percentile t\<rfloor> + 1"

section \<open>Notions for the proofs\<close>

text \<open>The elements of \<open>xs\<close> at the indices \<open>l, ..., r\<close>.\<close>

definition segment :: "'a list \<Rightarrow> int \<Rightarrow> int \<Rightarrow> 'a list" where
  "segment xs l r = take (nat (r + 1 - l)) (drop (nat l) xs)"

text \<open>
  A task of the worklist is in order, with respect to the sorted snapshot \<open>srt\<close> and the
  sorted positions \<open>tg q\<close> asked for: if it carries ranks, its range holds the elements
  that the sorted snapshot has there, each of its ranks has its position in the range, and
  \<^verbatim>\<open>_ask\<close> holds that position relative to the range, counted from 1.
\<close>

definition task_ok ::
  "64 word list \<Rightarrow> (int \<Rightarrow> int) \<Rightarrow> 64 word list \<Rightarrow> 64 word list \<Rightarrow> task \<Rightarrow> bool" where
  "task_ok srt tg tmpl askl T =
     (case T of (left, right, ql, qr) \<Rightarrow>
        ql \<le> qr \<longrightarrow>
          0 \<le> left \<and> left \<le> right \<and> right < int (length srt) \<and>
          0 \<le> ql \<and> qr < int (length askl) \<and>
          mset (segment tmpl left right) = mset (segment srt left right) \<and>
          (\<forall>q. ql \<le> q \<and> q \<le> qr \<longrightarrow>
             left \<le> tg q \<and> tg q \<le> right \<and> askl ! nat q = word_of_int (tg q - left + 1)))"

text \<open>The number of further \<^verbatim>\<open>select\<close> calls that a task can cause to split a range.\<close>

definition pot :: "task \<Rightarrow> int" where
  "pot T = (case T of (left, right, ql, qr) \<Rightarrow> if ql \<le> qr then max 0 (right - left) else 0)"

text \<open>Two tasks do not meet: one carries no rank, or their ranges are disjoint.\<close>

definition apart :: "task \<Rightarrow> task \<Rightarrow> bool" where
  "apart T T' =
     (case T of (l1, r1, ql1, qr1) \<Rightarrow> case T' of (l2, r2, ql2, qr2) \<Rightarrow>
        qr1 < ql1 \<or> qr2 < ql2 \<or> r1 < l2 \<or> r2 < l1)"

text \<open>The task carries the rank of tag \<open>q\<close>.\<close>

definition covers :: "task \<Rightarrow> int \<Rightarrow> bool" where
  "covers T q = (case T of (left, right, ql, qr) \<Rightarrow> ql \<le> q \<and> q \<le> qr)"

text \<open>The rows \<open>l, ..., r\<close> of \<^verbatim>\<open>_calc_queue\<close>: the tasks not yet processed.\<close>

definition pending :: "task list \<Rightarrow> int \<Rightarrow> int \<Rightarrow> task list" where
  "pending cq l r = map (\<lambda>k. cq ! nat k) [l..r]"

text \<open>The invariant of the worklist loop.\<close>

definition loop_inv ::
  "64 word list \<Rightarrow> (int \<Rightarrow> int) \<Rightarrow> perf_counter_number_percentile \<Rightarrow> int \<Rightarrow> int \<Rightarrow> bool" where
  "loop_inv srt tg s l r \<longleftrightarrow>
     int (length srt) \<le> int (length (c_tmp s)) \<and>
     length (c_mid_temp s) = length (c_tmp s) \<and>
     length (c_ans s) = length (c_ask s) \<and>
     1 \<le> l \<and> l \<le> r + 1 \<and>
     r + 3 * sum_list (map pot (pending (c_calc_queue s) l r)) + 2 \<le> 3 * int (length srt) \<and>
     3 * int (length srt) \<le> int (length (c_calc_queue s)) \<and>
     (\<forall>T \<in> set (pending (c_calc_queue s) l r). task_ok srt tg (c_tmp s) (c_ask s) T) \<and>
     sorted_wrt apart (pending (c_calc_queue s) l r) \<and>
     (\<forall>q. 0 \<le> q \<and> q < int (length (c_ask s)) \<longrightarrow>
        (\<exists>T \<in> set (pending (c_calc_queue s) l r). covers T q) \<or>
        c_ans s ! nat q = srt ! nat (tg q))"

text \<open>The samples are the same and no array has changed its size.\<close>

definition same_shape ::
  "perf_counter_number_percentile \<Rightarrow> perf_counter_number_percentile \<Rightarrow> bool" where
  "same_shape s s' \<longleftrightarrow>
     c_tail s' = c_tail s \<and> c_queue s' = c_queue s \<and>
     length (c_tmp s') = length (c_tmp s) \<and> length (c_mid_temp s') = length (c_mid_temp s) \<and>
     length (c_ask s') = length (c_ask s) \<and> length (c_ans s') = length (c_ans s) \<and>
     length (c_calc_queue s') = length (c_calc_queue s)"

text \<open>
  The position in the sorted snapshot that tag \<open>q\<close> asks for, counted from 0, as
  \<^verbatim>\<open>calc\<close> computes it for \<open>n\<close> samples.
\<close>

definition target :: "int \<Rightarrow> int \<Rightarrow> int" where
  "target n q =
     (if q \<le> 0 then scaled n 1 2 else if q = 1 then scaled n 9 10
      else if q = 2 then scaled n 19 20 else if q = 3 then scaled n 99 100
      else scaled n 999 1000)"

text \<open>The number of samples \<^verbatim>\<open>calc\<close> works on: \<^verbatim>\<open>tmp_num\<close>.\<close>

definition window :: "perf_counter_number_percentile \<Rightarrow> int" where
  "window s = (if sint (c_tail s) > MAX_QUEUE_LENGTH then MAX_QUEUE_LENGTH else sint (c_tail s))"

section \<open>Properties of the counter operations\<close>

lemma example_counter_fresh: "fresh_counter example_counter"
  by (simp add: fresh_counter_def wf_counter_def example_counter_def MAX_QUEUE_LENGTH_def
      COUNTER_PERCENTILE_COUNT_def)

subsection \<open>Checked accesses in range\<close>

lemma rd_ok: "0 \<le> i \<Longrightarrow> i < int (length xs) \<Longrightarrow> rd xs i = Inr (xs ! nat i)"
  by (simp add: rd_def)

lemma wr_ok: "0 \<le> i \<Longrightarrow> i < int (length xs) \<Longrightarrow> wr xs i v = Inr (xs[nat i := v])"
  by (simp add: wr_def)

lemma nth_upd_int:
  "0 \<le> i \<Longrightarrow> i < int (length xs) \<Longrightarrow> 0 \<le> p \<Longrightarrow>
   (xs[nat i := v]) ! nat p = (if p = i then v else xs ! nat p)"
  by (auto simp: nth_list_update)

subsection \<open>\<^verbatim>\<open>find_mid\<close> returns an element of its range\<close>

lemma find_mid_shift_spec:
  assumes "0 \<le> index" "index \<le> j + 1" "j + 1 < int (length m)"
  shows "\<exists>m' j'. find_mid_shift m index j k = Inr (m', j') \<and> length m' = length m \<and>
           index - 1 \<le> j' \<and> j' \<le> j \<and>
           (\<forall>p. 0 \<le> p \<and> (p \<le> j' + 1 \<or> j + 1 < p) \<longrightarrow> m' ! nat p = m ! nat p) \<and>
           (\<forall>p. j' + 1 < p \<and> p \<le> j + 1 \<longrightarrow> m' ! nat p = m ! nat (p - 1))"
  using assms
proof (induction m index j k rule: find_mid_shift.induct)
  case (1 m index j k)
  show ?case
  proof (cases "j \<ge> index \<and> m ! nat j > k")
    case False
    with "1.prems" show ?thesis
      by (subst find_mid_shift.simps) (auto simp: rd_ok)
  next
    case True
    define m1 where "m1 = m[nat (j + 1) := m ! nat j]"
    from True "1.prems" have r: "rd m j = Inr (m ! nat j)" by (simp add: rd_ok)
    from True "1.prems" have w: "wr m (j + 1) (m ! nat j) = Inr m1"
      by (simp add: wr_ok m1_def)
    from True "1.prems" have "\<exists>m' j'. find_mid_shift m1 index (j - 1) k = Inr (m', j') \<and>
           length m' = length m1 \<and> index - 1 \<le> j' \<and> j' \<le> j - 1 \<and>
           (\<forall>p. 0 \<le> p \<and> (p \<le> j' + 1 \<or> j - 1 + 1 < p) \<longrightarrow> m' ! nat p = m1 ! nat p) \<and>
           (\<forall>p. j' + 1 < p \<and> p \<le> j - 1 + 1 \<longrightarrow> m' ! nat p = m1 ! nat (p - 1))"
      by (intro "1.IH" [OF _ r _ w]) (simp_all add: m1_def)
    then obtain m' j' where s: "find_mid_shift m1 index (j - 1) k = Inr (m', j')"
      and l: "length m' = length m1" and b: "index - 1 \<le> j'" "j' \<le> j - 1"
      and u: "\<And>p. 0 \<le> p \<Longrightarrow> p \<le> j' + 1 \<or> j < p \<Longrightarrow> m' ! nat p = m1 ! nat p"
      and v: "\<And>p. j' + 1 < p \<Longrightarrow> p \<le> j \<Longrightarrow> m' ! nat p = m1 ! nat (p - 1)"
      by auto
    have e: "find_mid_shift m index j k = Inr (m', j')"
      using True r w s by (subst find_mid_shift.simps) simp
    have u': "m' ! nat p = m ! nat p" if "0 \<le> p" "p \<le> j' + 1 \<or> j + 1 < p" for p
    proof -
      from that b have "m' ! nat p = m1 ! nat p" by (intro u) auto
      also from that b "1.prems" have "\<dots> = m ! nat p"
        unfolding m1_def by (subst nth_upd_int) auto
      finally show ?thesis .
    qed
    have v': "m' ! nat p = m ! nat (p - 1)" if "j' + 1 < p" "p \<le> j + 1" for p
    proof (cases "p = j + 1")
      case True
      with b "1.prems" have "m' ! nat p = m1 ! nat p" by (intro u) auto
      also from True "1.prems" \<open>j \<ge> index \<and> m ! nat j > k\<close> have "\<dots> = m ! nat (p - 1)"
        unfolding m1_def by (subst nth_upd_int) auto
      finally show ?thesis .
    next
      case False
      with that have "m' ! nat p = m1 ! nat (p - 1)" by (intro v) auto
      also from that b "1.prems" False have "\<dots> = m ! nat (p - 1)"
        unfolding m1_def by (subst nth_upd_int) auto
      finally show ?thesis .
    qed
    from e l b u' v' show ?thesis by (auto simp: m1_def)
  qed
qed

lemma find_mid_insert_spec:
  assumes "0 \<le> index" "index \<le> i" "i \<le> index + remain" "index + remain \<le> int (length m)"
  shows "\<exists>m'. find_mid_insert m index remain i = Inr m' \<and> length m' = length m \<and>
           (\<forall>p. 0 \<le> p \<and> (p < index \<or> index + remain \<le> p) \<longrightarrow> m' ! nat p = m ! nat p) \<and>
           (\<forall>p. index \<le> p \<and> p < index + remain \<longrightarrow>
              (\<exists>q. index \<le> q \<and> q < index + remain \<and> m' ! nat p = m ! nat q))"
  using assms
proof (induction m index remain i rule: find_mid_insert.induct)
  case (1 m index remain i)
  show ?case
  proof (cases "i < index + remain")
    case False
    then show ?thesis
      by (subst find_mid_insert.simps) auto
  next
    case True
    define k where "k = m ! nat i"
    from True "1.prems" have r: "rd m i = Inr k" by (simp add: rd_ok k_def)
    from True "1.prems" obtain m1 j where
      s: "find_mid_shift m index (i - 1) k = Inr (m1, j)" and l1: "length m1 = length m"
      and b: "index - 1 \<le> j" "j \<le> i - 1"
      and u: "\<And>p. 0 \<le> p \<Longrightarrow> p \<le> j + 1 \<or> i < p \<Longrightarrow> m1 ! nat p = m ! nat p"
      and v: "\<And>p. j + 1 < p \<Longrightarrow> p \<le> i \<Longrightarrow> m1 ! nat p = m ! nat (p - 1)"
      using find_mid_shift_spec [of index "i - 1" m k] by auto
    define m2 where "m2 = m1[nat (j + 1) := k]"
    from True "1.prems" b l1 have w: "wr m1 (j + 1) k = Inr m2"
      by (simp add: wr_ok m2_def)
    have l2: "length m2 = length m" by (simp add: m2_def l1)
    have out2: "m2 ! nat p = m ! nat p" if "0 \<le> p" "p < index \<or> i < p" for p
    proof -
      from that b True "1.prems" l1 have "m2 ! nat p = m1 ! nat p"
        unfolding m2_def by (subst nth_upd_int) auto
      also from that b have "\<dots> = m ! nat p" by (intro u) auto
      finally show ?thesis .
    qed
    have in2: "\<exists>q. index \<le> q \<and> q \<le> i \<and> m2 ! nat p = m ! nat q" if "index \<le> p" "p \<le> i" for p
    proof -
      consider "p \<le> j" | "p = j + 1" | "j + 1 < p" by linarith
      then show ?thesis
      proof cases
        case 1
        with that b True "1.prems" l1 have "m2 ! nat p = m1 ! nat p"
          unfolding m2_def by (subst nth_upd_int) auto
        also from 1 that "1.prems" have "\<dots> = m ! nat p" by (intro u) auto
        finally show ?thesis using that by blast
      next
        case 2
        with that b True "1.prems" l1 have "m2 ! nat p = k"
          unfolding m2_def by (subst nth_upd_int) auto
        with "1.prems" show ?thesis unfolding k_def by blast
      next
        case 3
        with that b True "1.prems" l1 have "m2 ! nat p = m1 ! nat p"
          unfolding m2_def by (subst nth_upd_int) auto
        also from 3 that have "\<dots> = m ! nat (p - 1)" by (intro v) auto
        finally show ?thesis using that 3 b
          by (intro exI [of _ "p - 1"]) auto
      qed
    qed
    from True "1.prems" l2 have "\<exists>m'. find_mid_insert m2 index remain (i + 1) = Inr m' \<and>
           length m' = length m2 \<and>
           (\<forall>p. 0 \<le> p \<and> (p < index \<or> index + remain \<le> p) \<longrightarrow> m' ! nat p = m2 ! nat p) \<and>
           (\<forall>p. index \<le> p \<and> p < index + remain \<longrightarrow>
              (\<exists>q. index \<le> q \<and> q < index + remain \<and> m' ! nat p = m2 ! nat q))"
      by (intro "1.IH" [OF True r _ _ w]) (use s in auto)
    then obtain m' where e': "find_mid_insert m2 index remain (i + 1) = Inr m'"
      and l': "length m' = length m2"
      and u': "\<And>p. 0 \<le> p \<Longrightarrow> p < index \<or> index + remain \<le> p \<Longrightarrow> m' ! nat p = m2 ! nat p"
      and v': "\<And>p. index \<le> p \<Longrightarrow> p < index + remain \<Longrightarrow>
              \<exists>q. index \<le> q \<and> q < index + remain \<and> m' ! nat p = m2 ! nat q"
      by auto
    have e: "find_mid_insert m index remain i = Inr m'"
      using True r s w e' by (subst find_mid_insert.simps) simp
    have out: "m' ! nat p = m ! nat p" if "0 \<le> p" "p < index \<or> index + remain \<le> p" for p
      using u' [OF that] out2 [of p] that True by auto
    have m2_in: "\<exists>q'. index \<le> q' \<and> q' < index + remain \<and> m2 ! nat q = m ! nat q'"
      if "index \<le> q" "q < index + remain" for q
    proof (cases "q \<le> i")
      case True
      from in2 [OF that(1) True] \<open>i < index + remain\<close> show ?thesis by force
    next
      case False
      with that "1.prems" have "m2 ! nat q = m ! nat q" by (intro out2) auto
      with that show ?thesis by blast
    qed
    have inn: "\<exists>q. index \<le> q \<and> q < index + remain \<and> m' ! nat p = m ! nat q"
      if "index \<le> p" "p < index + remain" for p
    proof -
      from v' [OF that] obtain q where q: "index \<le> q" "q < index + remain"
        "m' ! nat p = m2 ! nat q" by blast
      from m2_in [OF q(1,2)] q(3) show ?thesis by auto
    qed
    from e l' l2 out inn show ?thesis by auto
  qed
qed

lemma sdiv_nonneg: "0 \<le> a \<Longrightarrow> 0 < b \<Longrightarrow> a sdiv b = a div (b :: int)"
  by (cases "a = 0") (simp_all add: signed_divide_int_def)

lemma find_mid_groups_spec:
  assumes "0 \<le> left" "left \<le> index" "(index - left) mod 5 = 0" "index < right + 5"
    "left < right" "right < int (length m)"
    and rest: "\<forall>p. index \<le> p \<and> p \<le> right \<longrightarrow> m ! nat p \<in> S"
    and meds: "\<forall>p. 0 \<le> p \<and> p < (index - left) div 5 \<longrightarrow> m ! nat p \<in> S"
  shows "\<exists>m'. find_mid_groups m left right index = Inr m' \<and> length m' = length m \<and>
           (\<forall>p. 0 \<le> p \<and> p \<le> (right - left - 1) div 5 \<longrightarrow> m' ! nat p \<in> S)"
  using assms
proof (induction m left right index rule: find_mid_groups.induct)
  case (1 m left right index)
  show ?case
  proof (cases "index < right")
    case False
    have "(right - left - 1) div 5 < (index - left) div 5"
      using False "1.prems"(2,3,4,5) by presburger
    with False "1.prems" show ?thesis
      by (subst find_mid_groups.simps) auto
  next
    case idx: True
    note True = idx
    define remain where "remain = (if index + 5 \<ge> right then right - index + 1 else 5)"
    define g where "g = (index - left) div 5"
    have rb: "2 \<le> remain" "remain \<le> 6" "index + remain \<le> right + 1"
      "index + 5 \<le> right \<or> index + remain = right + 1"
      using True by (auto simp: remain_def)
    have gb: "0 \<le> g" "g \<le> index" "5 * g = index - left"
      using "1.prems"(1,2,3) unfolding g_def by presburger+
    from "1.prems" rb obtain m1 where
      s: "find_mid_insert m index remain index = Inr m1" and l1: "length m1 = length m"
      and u: "\<And>p. 0 \<le> p \<Longrightarrow> p < index \<or> index + remain \<le> p \<Longrightarrow> m1 ! nat p = m ! nat p"
      and v: "\<And>p. index \<le> p \<Longrightarrow> p < index + remain \<Longrightarrow>
              \<exists>q. index \<le> q \<and> q < index + remain \<and> m1 ! nat p = m ! nat q"
      using find_mid_insert_spec [of index index remain m] by auto
    have m1S: "m1 ! nat p \<in> S" if "index \<le> p" "p \<le> right" for p
    proof (cases "p < index + remain")
      case True
      from v [OF that(1) True] obtain q where "index \<le> q" "q < index + remain"
        "m1 ! nat p = m ! nat q" by blast
      with rb "1.prems"(7) show ?thesis by auto
    next
      case False
      with that "1.prems"(1,2) have "m1 ! nat p = m ! nat p" by (intro u) auto
      with that "1.prems"(7) show ?thesis by auto
    qed
    define med where "med = m1 ! nat (index + remain div 2)"
    have medS: "med \<in> S" unfolding med_def using rb by (intro m1S) auto
    have r: "rd m1 (index + remain sdiv 2) = Inr med"
      using rb "1.prems"(1,2,6) l1 by (simp add: sdiv_nonneg rd_ok med_def)
    define m2 where "m2 = m1[nat g := med]"
    have w: "wr m1 ((index - left) sdiv 5) med = Inr m2"
      using gb True "1.prems"(1,2,6) l1 by (simp add: sdiv_nonneg wr_ok m2_def g_def)
    have l2: "length m2 = length m" by (simp add: m2_def l1)
    have rest2: "\<forall>p. index + 5 \<le> p \<and> p \<le> right \<longrightarrow> m2 ! nat p \<in> S"
    proof (intro allI impI)
      fix p assume p: "index + 5 \<le> p \<and> p \<le> right"
      with gb "1.prems"(1,2,6) l1 have "m2 ! nat p = m1 ! nat p"
        unfolding m2_def by (subst nth_upd_int) auto
      with p m1S [of p] show "m2 ! nat p \<in> S" by auto
    qed
    have meds2: "\<forall>p. 0 \<le> p \<and> p < (index + 5 - left) div 5 \<longrightarrow> m2 ! nat p \<in> S"
    proof (intro allI impI)
      fix p assume p: "0 \<le> p \<and> p < (index + 5 - left) div 5"
      have "(index + 5 - left) div 5 = g + 1" unfolding g_def by simp
      with p have pg: "p \<le> g" by simp
      show "m2 ! nat p \<in> S"
      proof (cases "p = g")
        case True
        with gb idx "1.prems"(1,2,6) l1 have "m2 ! nat p = med"
          unfolding m2_def by (subst nth_upd_int) auto
        with medS show ?thesis by simp
      next
        case False
        with pg p gb idx "1.prems"(1,2,6) l1 have "m2 ! nat p = m1 ! nat p"
          unfolding m2_def by (subst nth_upd_int) auto
        also from False pg p gb have "\<dots> = m ! nat p" by (intro u) auto
        also from False pg p "1.prems"(8) have "\<dots> \<in> S" unfolding g_def by auto
        finally show ?thesis .
      qed
    qed
    have "\<exists>m'. find_mid_groups m2 left right (index + 5) = Inr m' \<and> length m' = length m2 \<and>
           (\<forall>p. 0 \<le> p \<and> p \<le> (right - left - 1) div 5 \<longrightarrow> m' ! nat p \<in> S)"
    proof (rule "1.IH" [OF True remain_def s r w])
      show "(index + 5 - left) mod 5 = 0" using "1.prems"(3) by presburger
    qed (use "1.prems" True l2 rest2 meds2 in auto)
    then obtain m' where e': "find_mid_groups m2 left right (index + 5) = Inr m'"
      and l': "length m' = length m2"
      and f: "\<forall>p. 0 \<le> p \<and> p \<le> (right - left - 1) div 5 \<longrightarrow> m' ! nat p \<in> S"
      by auto
    have e: "find_mid_groups m left right index = Inr m'"
      using True s r w e' unfolding remain_def
      by (subst find_mid_groups.simps) (simp add: Let_def)
    from e l' l2 f show ?thesis by auto
  qed
qed

lemma find_mid_spec:
  assumes "0 \<le> left" "left \<le> right" "right < int (length m)"
    and "\<forall>p. left \<le> p \<and> p \<le> right \<longrightarrow> m ! nat p \<in> S"
  shows "\<exists>v m'. find_mid m left right = Inr (v, m') \<and> length m' = length m \<and> v \<in> S"
  using assms
proof (induction m left right rule: find_mid.induct)
  case (1 m left right)
  show ?case
  proof (cases "left = right")
    case True
    with "1.prems" show ?thesis
      by (subst find_mid.simps) (auto simp: rd_ok)
  next
    case False
    with "1.prems" have lr: "left < right" by simp
    have "\<exists>m'. find_mid_groups m left right left = Inr m' \<and> length m' = length m \<and>
           (\<forall>p. 0 \<le> p \<and> p \<le> (right - left - 1) div 5 \<longrightarrow> m' ! nat p \<in> S)"
      by (rule find_mid_groups_spec) (use "1.prems" lr in auto)
    then obtain m1 where
      g: "find_mid_groups m left right left = Inr m1" and l1: "length m1 = length m"
      and f: "\<forall>p. 0 \<le> p \<and> p \<le> (right - left - 1) div 5 \<longrightarrow> m1 ! nat p \<in> S"
      by blast
    have d: "(right - left - 1) sdiv 5 = (right - left - 1) div 5"
      using lr by (simp add: sdiv_nonneg)
    have b: "0 \<le> (right - left - 1) div 5" "(right - left - 1) div 5 \<le> right"
      using lr "1.prems"(1) by presburger+
    have "\<exists>v m'. find_mid m1 0 ((right - left - 1) sdiv 5) = Inr (v, m') \<and>
            length m' = length m1 \<and> v \<in> S"
      by (rule "1.IH" [OF False g]) (use d b f l1 "1.prems" in auto)
    then obtain v m' where e': "find_mid m1 0 ((right - left - 1) sdiv 5) = Inr (v, m')"
      and l': "length m' = length m1" and vS: "v \<in> S" by auto
    have "find_mid m left right = Inr (v, m')"
      using False g e' by (subst find_mid.simps) simp
    with l' l1 vS show ?thesis by auto
  qed
qed

subsection \<open>The pivot of \<^verbatim>\<open>select\<close>\<close>

lemma select_copy_spec:
  assumes "0 \<le> i" "right < int (length m)" "right < int (length tmpl)"
  shows "\<exists>m'. select_copy tmpl m i right = Inr m' \<and> length m' = length m \<and>
           (\<forall>p. 0 \<le> p \<and> p < i \<longrightarrow> m' ! nat p = m ! nat p) \<and>
           (\<forall>p. i \<le> p \<and> p \<le> right \<longrightarrow> m' ! nat p = tmpl ! nat p)"
  using assms
proof (induction tmpl m i right rule: select_copy.induct)
  case (1 tmpl m i right)
  show ?case
  proof (cases "i \<le> right")
    case False
    then show ?thesis by (subst select_copy.simps) auto
  next
    case True
    define m1 where "m1 = m[nat i := tmpl ! nat i]"
    from True "1.prems" have r: "rd tmpl i = Inr (tmpl ! nat i)" by (simp add: rd_ok)
    from True "1.prems" have w: "wr m i (tmpl ! nat i) = Inr m1" by (simp add: wr_ok m1_def)
    have "\<exists>m'. select_copy tmpl m1 (i + 1) right = Inr m' \<and> length m' = length m1 \<and>
           (\<forall>p. 0 \<le> p \<and> p < i + 1 \<longrightarrow> m' ! nat p = m1 ! nat p) \<and>
           (\<forall>p. i + 1 \<le> p \<and> p \<le> right \<longrightarrow> m' ! nat p = tmpl ! nat p)"
      by (rule "1.IH" [OF True r w]) (use "1.prems" in \<open>auto simp: m1_def\<close>)
    then obtain m' where e': "select_copy tmpl m1 (i + 1) right = Inr m'"
      and l': "length m' = length m1"
      and u: "\<And>p. 0 \<le> p \<Longrightarrow> p < i + 1 \<Longrightarrow> m' ! nat p = m1 ! nat p"
      and v: "\<And>p. i + 1 \<le> p \<Longrightarrow> p \<le> right \<Longrightarrow> m' ! nat p = tmpl ! nat p"
      by auto
    have e: "select_copy tmpl m i right = Inr m'"
      using True r w e' by (subst select_copy.simps) simp
    have a: "m' ! nat p = m ! nat p" if "0 \<le> p" "p < i" for p
    proof -
      from that have "m' ! nat p = m1 ! nat p" by (intro u) auto
      also from that True "1.prems" have "\<dots> = m ! nat p"
        unfolding m1_def by (subst nth_upd_int) auto
      finally show ?thesis .
    qed
    have b: "m' ! nat p = tmpl ! nat p" if "i \<le> p" "p \<le> right" for p
    proof (cases "p = i")
      case True
      with "1.prems" have "m' ! nat p = m1 ! nat p" by (intro u) auto
      also from True \<open>i \<le> right\<close> "1.prems" have "\<dots> = tmpl ! nat p"
        unfolding m1_def by (subst nth_upd_int) auto
      finally show ?thesis .
    next
      case False
      with that show ?thesis by (intro v) auto
    qed
    from e l' a b show ?thesis by (auto simp: m1_def)
  qed
qed

lemma select_locate_spec:
  assumes "0 \<le> index" "right < int (length tmpl)"
    "\<exists>p. index \<le> p \<and> p \<le> right \<and> tmpl ! nat p = mid"
  shows "\<exists>i0. select_locate tmpl mid index right = Inr i0 \<and> index \<le> i0 \<and> i0 \<le> right \<and>
           tmpl ! nat i0 = mid"
  using assms
proof (induction tmpl mid index right rule: select_locate.induct)
  case (1 tmpl mid index right)
  from "1.prems" have le: "index \<le> right" by auto
  with "1.prems" have r: "rd tmpl index = Inr (tmpl ! nat index)" by (simp add: rd_ok)
  show ?case
  proof (cases "tmpl ! nat index = mid")
    case True
    with le r show ?thesis by (subst select_locate.simps) simp
  next
    case False
    from "1.prems"(3) obtain p where p: "index \<le> p" "p \<le> right" "tmpl ! nat p = mid" by blast
    with False have "p \<noteq> index" by auto
    with p have ex: "\<exists>p. index + 1 \<le> p \<and> p \<le> right \<and> tmpl ! nat p = mid"
      by (intro exI [of _ p]) auto
    have "\<exists>i0. select_locate tmpl mid (index + 1) right = Inr i0 \<and> index + 1 \<le> i0 \<and>
            i0 \<le> right \<and> tmpl ! nat i0 = mid"
      by (rule "1.IH" [OF le r False]) (use "1.prems" ex in auto)
    then obtain i0 where "select_locate tmpl mid (index + 1) right = Inr i0"
      "index + 1 \<le> i0" "i0 \<le> right" "tmpl ! nat i0 = mid" by blast
    with le r False show ?thesis by (subst select_locate.simps) simp
  qed
qed

lemma select_pivot_spec:
  assumes "0 \<le> left" "left \<le> right" "right < int (length tmpl)" "right < int (length m)"
  shows "\<exists>mid m1 index0. select_pivot tmpl m left right = Inr (mid, m1, index0) \<and>
           length m1 = length m \<and> left \<le> index0 \<and> index0 \<le> right \<and>
           tmpl ! nat index0 = mid"
proof -
  define S where "S = {v. \<exists>p. left \<le> p \<and> p \<le> right \<and> tmpl ! nat p = v}"
  from assms obtain m0 where c: "select_copy tmpl m left right = Inr m0"
    and l0: "length m0 = length m"
    and v: "\<And>p. left \<le> p \<Longrightarrow> p \<le> right \<Longrightarrow> m0 ! nat p = tmpl ! nat p"
    using select_copy_spec [of left right m tmpl] by auto
  have "\<exists>v m'. find_mid m0 left right = Inr (v, m') \<and> length m' = length m0 \<and> v \<in> S"
    by (rule find_mid_spec) (use assms l0 v in \<open>auto simp: S_def\<close>)
  then obtain mid m1 where f: "find_mid m0 left right = Inr (mid, m1)"
    and l1: "length m1 = length m0" and "mid \<in> S" by blast
  then have ex: "\<exists>p. left \<le> p \<and> p \<le> right \<and> tmpl ! nat p = mid" by (simp add: S_def)
  have "\<exists>i0. select_locate tmpl mid left right = Inr i0 \<and> left \<le> i0 \<and> i0 \<le> right \<and>
           tmpl ! nat i0 = mid"
    by (rule select_locate_spec) (use assms ex in auto)
  then obtain index0 where "select_locate tmpl mid left right = Inr index0"
    "left \<le> index0" "index0 \<le> right" "tmpl ! nat index0 = mid" by blast
  with c f l0 l1 show ?thesis by (simp add: select_pivot_def)
qed

subsection \<open>The partition step\<close>

lemma rd_in_ok:
  "fst w \<le> i \<Longrightarrow> i \<le> snd w \<Longrightarrow> 0 \<le> i \<Longrightarrow> i < int (length xs) \<Longrightarrow>
   rd_in w xs i = Inr (xs ! nat i)"
  by (simp add: rd_in_def rd_ok)

lemma wr_in_ok:
  "fst w \<le> i \<Longrightarrow> i \<le> snd w \<Longrightarrow> 0 \<le> i \<Longrightarrow> i < int (length xs) \<Longrightarrow>
   wr_in w xs i v = Inr (xs[nat i := v])"
  by (simp add: wr_in_def wr_ok)

lemma partition_move_ok:
  "fst w \<le> index \<Longrightarrow> index \<le> snd w \<Longrightarrow> fst w \<le> k \<Longrightarrow> k \<le> snd w \<Longrightarrow>
   0 \<le> index \<Longrightarrow> index < int (length t) \<Longrightarrow> 0 \<le> k \<Longrightarrow> k < int (length t) \<Longrightarrow>
   partition_move w t index k = Inr (t[nat index := t ! nat k])"
  by (simp add: partition_move_def rd_in_ok wr_in_ok)

lemma partition_down_spec:
  assumes "fst w \<le> i" "j \<le> snd w" "0 \<le> i" "j < int (length t)" "i \<le> j + 1"
  shows "\<exists>j1. partition_down w t mid i j = Inr j1 \<and> i - 1 \<le> j1 \<and> j1 \<le> j \<and>
           (\<forall>p. j1 < p \<and> p \<le> j \<longrightarrow> mid < t ! nat p) \<and> (i \<le> j1 \<longrightarrow> t ! nat j1 \<le> mid)"
  using assms
proof (induction w t mid i j rule: partition_down.induct)
  case (1 w t mid i j)
  show ?case
  proof (cases "i \<le> j")
    case False
    with "1.prems" show ?thesis by (subst partition_down.simps) auto
  next
    case True
    with "1.prems" have r: "rd_in w t j = Inr (t ! nat j)" by (simp add: rd_in_ok)
    show ?thesis
    proof (cases "t ! nat j > mid")
      case False
      with True r show ?thesis by (subst partition_down.simps) auto
    next
      case gt: True
      have "\<exists>j1. partition_down w t mid i (j - 1) = Inr j1 \<and> i - 1 \<le> j1 \<and> j1 \<le> j - 1 \<and>
           (\<forall>p. j1 < p \<and> p \<le> j - 1 \<longrightarrow> mid < t ! nat p) \<and> (i \<le> j1 \<longrightarrow> t ! nat j1 \<le> mid)"
        by (rule "1.IH" [OF True r gt]) (use "1.prems" True in auto)
      then obtain j1 where e': "partition_down w t mid i (j - 1) = Inr j1"
        and b: "i - 1 \<le> j1" "j1 \<le> j - 1"
        and u: "\<And>p. j1 < p \<Longrightarrow> p \<le> j - 1 \<Longrightarrow> mid < t ! nat p"
        and v: "i \<le> j1 \<longrightarrow> t ! nat j1 \<le> mid" by auto
      have e: "partition_down w t mid i j = Inr j1"
        using True r gt e' by (subst partition_down.simps) simp
      have "mid < t ! nat p" if "j1 < p" "p \<le> j" for p
        using that u [of p] gt by (cases "p = j") auto
      with e b v show ?thesis by auto
    qed
  qed
qed

lemma partition_up_spec:
  assumes "fst w \<le> i" "j \<le> snd w" "0 \<le> i" "j < int (length t)" "i \<le> j + 1"
  shows "\<exists>i1. partition_up w t mid i j = Inr i1 \<and> i \<le> i1 \<and> i1 \<le> j + 1 \<and>
           (\<forall>p. i \<le> p \<and> p < i1 \<longrightarrow> t ! nat p < mid) \<and> (i1 \<le> j \<longrightarrow> mid \<le> t ! nat i1)"
  using assms
proof (induction w t mid i j rule: partition_up.induct)
  case (1 w t mid i j)
  show ?case
  proof (cases "i \<le> j")
    case False
    with "1.prems" show ?thesis by (subst partition_up.simps) auto
  next
    case True
    with "1.prems" have r: "rd_in w t i = Inr (t ! nat i)" by (simp add: rd_in_ok)
    show ?thesis
    proof (cases "t ! nat i < mid")
      case False
      with True r show ?thesis by (subst partition_up.simps) auto
    next
      case lt: True
      have "\<exists>i1. partition_up w t mid (i + 1) j = Inr i1 \<and> i + 1 \<le> i1 \<and> i1 \<le> j + 1 \<and>
           (\<forall>p. i + 1 \<le> p \<and> p < i1 \<longrightarrow> t ! nat p < mid) \<and> (i1 \<le> j \<longrightarrow> mid \<le> t ! nat i1)"
        by (rule "1.IH" [OF True r lt]) (use "1.prems" True in auto)
      then obtain i1 where e': "partition_up w t mid (i + 1) j = Inr i1"
        and b: "i + 1 \<le> i1" "i1 \<le> j + 1"
        and u: "\<And>p. i + 1 \<le> p \<Longrightarrow> p < i1 \<Longrightarrow> t ! nat p < mid"
        and v: "i1 \<le> j \<longrightarrow> mid \<le> t ! nat i1" by auto
      have e: "partition_up w t mid i j = Inr i1"
        using True r lt e' by (subst partition_up.simps) simp
      have "t ! nat p < mid" if "i \<le> p" "p < i1" for p
        using that u [of p] lt by (cases "p = i") auto
      with e b v show ?thesis by auto
    qed
  qed
qed

lemma mset_hole_move:
  assumes "a < length t" "b < length t"
  shows "mset ((t[a := t ! b])[b := v]) = mset (t[a := v])"
proof (cases "a = b")
  case True
  then show ?thesis by simp
next
  case False
  have "mset ((t[a := v])[b := (t[a := v]) ! a, a := (t[a := v]) ! b]) = mset (t[a := v])"
    by (rule mset_swap) (use assms in auto)
  moreover have "(t[a := v])[b := (t[a := v]) ! a, a := (t[a := v]) ! b] = (t[a := t ! b])[b := v]"
    using False assms by (simp add: list_update_swap [of a b])
  ultimately show ?thesis by simp
qed

lemma partition_loop_spec:
  assumes "fst w \<le> left" "right \<le> snd w" "0 \<le> left" "right < int (length t)"
    and "left \<le> i" "j \<le> right" "i \<le> j + 1"
    and "i - 1 \<le> index" "index \<le> i" "left \<le> index" "index \<le> right"
    and "\<forall>p. left \<le> p \<and> p < i \<and> p \<noteq> index \<longrightarrow> t ! nat p \<le> mid"
    and "\<forall>p. j < p \<and> p \<le> right \<and> p \<noteq> index \<longrightarrow> mid \<le> t ! nat p"
  shows "\<exists>t' index'. partition_loop w t mid index i j = Inr (t', index') \<and>
     length t' = length t \<and> left \<le> index' \<and> index' \<le> right \<and>
     (\<forall>p. left \<le> p \<and> p < index' \<longrightarrow> t' ! nat p \<le> mid) \<and>
     (\<forall>p. index' < p \<and> p \<le> right \<longrightarrow> mid \<le> t' ! nat p) \<and>
     (\<forall>p. 0 \<le> p \<and> (p < left \<or> right < p) \<longrightarrow> t' ! nat p = t ! nat p) \<and>
     mset (t'[nat index' := mid]) = mset (t[nat index := mid])"
  using assms
proof (induction w t mid index i j rule: partition_loop.induct)
  case (1 w t mid index i j)
  note p = "1.prems"
  have lo: "\<And>p. left \<le> p \<Longrightarrow> p < i \<Longrightarrow> p \<noteq> index \<Longrightarrow> t ! nat p \<le> mid"
    and hi: "\<And>p. j < p \<Longrightarrow> p \<le> right \<Longrightarrow> p \<noteq> index \<Longrightarrow> mid \<le> t ! nat p"
    using p(12,13) by auto
  show ?case
  proof (cases "i \<le> j")
    case False
    have a: "t ! nat q \<le> mid" if "left \<le> q" "q < index" for q
      using that p(9) by (intro lo) auto
    have b: "mid \<le> t ! nat q" if "index < q" "q \<le> right" for q
      using that p(8) False by (intro hi) auto
    from False p(10,11) a b show ?thesis
      by (subst partition_loop.simps) auto
  next
    case True
    have "\<exists>j1. partition_down w t mid i j = Inr j1 \<and> i - 1 \<le> j1 \<and> j1 \<le> j \<and>
           (\<forall>p. j1 < p \<and> p \<le> j \<longrightarrow> mid < t ! nat p) \<and> (i \<le> j1 \<longrightarrow> t ! nat j1 \<le> mid)"
      by (rule partition_down_spec) (use p True in auto)
    then obtain j1 where d: "partition_down w t mid i j = Inr j1"
      and j1: "i - 1 \<le> j1" "j1 \<le> j"
      and dgt: "\<And>q. j1 < q \<Longrightarrow> q \<le> j \<Longrightarrow> mid < t ! nat q"
      and dle: "i \<le> j1 \<Longrightarrow> t ! nat j1 \<le> mid" by auto
    have hi1: "mid \<le> t ! nat q" if "j1 < q" "q \<le> right" "q \<noteq> index" for q
    proof (cases "q \<le> j")
      case True
      with that dgt [of q] show ?thesis by auto
    next
      case False
      with that show ?thesis by (intro hi) auto
    qed
    define t1 where "t1 = (if i \<le> j1 then t[nat index := t ! nat j1] else t)"
    define index1 where "index1 = (if i \<le> j1 then j1 else index)"
    define j2 where "j2 = (if i \<le> j1 then j1 - 1 else j1)"
    have s1: "(if i \<le> j1
               then ebind (partition_move w t index j1) (\<lambda>t. Inr (t, j1, j1 - 1))
               else Inr (t, index, j1)) = Inr (t1, index1, j2)"
      using p j1 by (simp add: partition_move_ok t1_def index1_def j2_def)
    have l1: "length t1 = length t" by (simp add: t1_def)
    have "\<exists>i1. partition_up w t1 mid i j2 = Inr i1 \<and> i \<le> i1 \<and> i1 \<le> j2 + 1 \<and>
           (\<forall>p. i \<le> p \<and> p < i1 \<longrightarrow> t1 ! nat p < mid) \<and> (i1 \<le> j2 \<longrightarrow> mid \<le> t1 ! nat i1)"
      by (rule partition_up_spec) (use p j1 l1 in \<open>auto simp: j2_def\<close>)
    then obtain i1 where u: "partition_up w t1 mid i j2 = Inr i1"
      and i1: "i \<le> i1" "i1 \<le> j2 + 1"
      and ult: "\<And>q. i \<le> q \<Longrightarrow> q < i1 \<Longrightarrow> t1 ! nat q < mid"
      and uge: "i1 \<le> j2 \<Longrightarrow> mid \<le> t1 ! nat i1" by auto
    define t2 where "t2 = (if i1 \<le> j2 then t1[nat index1 := t1 ! nat i1] else t1)"
    define index2 where "index2 = (if i1 \<le> j2 then i1 else index1)"
    define i2 where "i2 = (if i1 \<le> j2 then i1 + 1 else i1)"
    have ib: "left \<le> index1" "index1 \<le> right" "j2 \<le> right" "j2 < j"
      using p j1 True by (auto simp: index1_def j2_def)
    have s2: "(if i1 \<le> j2
               then ebind (partition_move w t1 index1 i1) (\<lambda>t. Inr (t, i1, i1 + 1))
               else Inr (t1, index1, i1)) = Inr (t2, index2, i2)"
      using p i1 ib l1 by (simp add: partition_move_ok t2_def index2_def i2_def)
    have l2: "length t2 = length t" by (simp add: t2_def l1)
    have e: "partition_loop w t mid index i j = partition_loop w t2 mid index2 i2 j2"
      using True d s1 u s2 by (subst partition_loop.simps) simp
    \<comment> \<open>the elements of \<open>t1\<close>\<close>
    have t1_at: "t1 ! nat q = (if i \<le> j1 \<and> q = index then t ! nat j1 else t ! nat q)"
      if "0 \<le> q" for q
      using that p unfolding t1_def by (simp add: nth_upd_int)
    have lo1: "t1 ! nat q \<le> mid" if "left \<le> q" "q < i1" "q \<noteq> index1" for q
    proof (cases "i \<le> j1 \<and> q = index")
      case True
      with that p dle show ?thesis by (simp add: t1_at)
    next
      case False
      show ?thesis
      proof (cases "q < i")
        case True
        with False that p lo [of q] show ?thesis by (auto simp: t1_at index1_def)
      next
        case False
        with that ult [of q] show ?thesis by auto
      qed
    qed
    have hi1': "mid \<le> t1 ! nat q" if "j2 < q" "q \<le> right" "q \<noteq> index1" for q
      using that p j1 hi1 [of q] by (auto simp: t1_at index1_def j2_def split: if_splits)
    \<comment> \<open>the elements of \<open>t2\<close>\<close>
    have t2_at: "t2 ! nat q = (if i1 \<le> j2 \<and> q = index1 then t1 ! nat i1 else t1 ! nat q)"
      if "0 \<le> q" for q
      using that p ib l1 unfolding t2_def by (simp add: nth_upd_int)
    have lo2: "\<forall>q. left \<le> q \<and> q < i2 \<and> q \<noteq> index2 \<longrightarrow> t2 ! nat q \<le> mid"
    proof (intro allI impI)
      fix q assume q: "left \<le> q \<and> q < i2 \<and> q \<noteq> index2"
      show "t2 ! nat q \<le> mid"
      proof (cases "i1 \<le> j2")
        case True
        with q have "q < i1" by (auto simp: i2_def index2_def)
        moreover from this True i1 j1 have "q \<noteq> index1"
          by (auto simp: index1_def j2_def split: if_splits)
        ultimately show ?thesis using q p lo1 [of q] by (simp add: t2_at)
      next
        case False
        with q p lo1 [of q] show ?thesis by (simp add: t2_at i2_def index2_def)
      qed
    qed
    have hi2: "\<forall>q. j2 < q \<and> q \<le> right \<and> q \<noteq> index2 \<longrightarrow> mid \<le> t2 ! nat q"
    proof (intro allI impI)
      fix q assume q: "j2 < q \<and> q \<le> right \<and> q \<noteq> index2"
      with p(3,5) j1 have q0: "0 \<le> q" by (auto simp: j2_def split: if_splits)
      show "mid \<le> t2 ! nat q"
      proof (cases "i1 \<le> j2")
        case True
        with q q0 i1 uge hi1' [of q] show ?thesis by (auto simp: t2_at)
      next
        case False
        with q q0 hi1' [of q] show ?thesis by (simp add: t2_at index2_def)
      qed
    qed
    have hb: "i2 - 1 \<le> index2" "index2 \<le> i2" "left \<le> index2" "index2 \<le> right"
      "left \<le> i2" "i2 \<le> j2 + 1"
      using p i1 ib j1 by (auto simp: index2_def i2_def index1_def j2_def split: if_splits)
    have fr: "t2 ! nat q = t ! nat q" if "0 \<le> q" "q < left \<or> right < q" for q
      using that p ib by (auto simp: t2_at t1_at)
    have ms1: "mset (t1[nat index1 := mid]) = mset (t[nat index := mid])"
      using p j1 by (auto simp: t1_def index1_def intro!: mset_hole_move)
    have ms2: "mset (t2[nat index2 := mid]) = mset (t1[nat index1 := mid])"
      using p i1 ib l1 by (auto simp: t2_def index2_def intro!: mset_hole_move)
    have "\<exists>t' index'. partition_loop w t2 mid index2 i2 j2 = Inr (t', index') \<and>
       length t' = length t2 \<and> left \<le> index' \<and> index' \<le> right \<and>
       (\<forall>p. left \<le> p \<and> p < index' \<longrightarrow> t' ! nat p \<le> mid) \<and>
       (\<forall>p. index' < p \<and> p \<le> right \<longrightarrow> mid \<le> t' ! nat p) \<and>
       (\<forall>p. 0 \<le> p \<and> (p < left \<or> right < p) \<longrightarrow> t' ! nat p = t2 ! nat p) \<and>
       mset (t'[nat index' := mid]) = mset (t2[nat index2 := mid])"
      by (rule "1.IH" [OF True d s1 refl refl u s2 refl refl])
        (use p l2 hb ib lo2 hi2 in auto)
    then obtain t' index' where r: "partition_loop w t2 mid index2 i2 j2 = Inr (t', index')"
      "length t' = length t2" "left \<le> index'" "index' \<le> right"
      "\<forall>p. left \<le> p \<and> p < index' \<longrightarrow> t' ! nat p \<le> mid"
      "\<forall>p. index' < p \<and> p \<le> right \<longrightarrow> mid \<le> t' ! nat p"
      and fr': "\<And>p. 0 \<le> p \<Longrightarrow> p < left \<or> right < p \<Longrightarrow> t' ! nat p = t2 ! nat p"
      and ms': "mset (t'[nat index' := mid]) = mset (t2[nat index2 := mid])"
      by blast
    have "t' ! nat q = t ! nat q" if "0 \<le> q" "q < left \<or> right < q" for q
      using fr' [OF that] fr [OF that] by simp
    with r e l2 ms' ms2 ms1 show ?thesis by auto
  qed
qed

lemma select_partition_spec:
  assumes "fst w \<le> left" "right \<le> snd w" "0 \<le> left" "left \<le> right" "right < int (length t)"
    "left \<le> index0" "index0 \<le> right" "t ! nat index0 = mid"
  shows "\<exists>t' index. select_partition w t mid left right index0 = Inr (t', index) \<and>
      length t' = length t \<and> left \<le> index \<and> index \<le> right \<and> t' ! nat index = mid \<and>
      (\<forall>p. left \<le> p \<and> p < index \<longrightarrow> t' ! nat p \<le> mid) \<and>
      (\<forall>p. index < p \<and> p \<le> right \<longrightarrow> mid \<le> t' ! nat p) \<and>
      (\<forall>p. 0 \<le> p \<and> (p < left \<or> right < p) \<longrightarrow> t' ! nat p = t ! nat p) \<and>
      mset t' = mset t"
proof -
  define t0 where "t0 = t[nat index0 := t ! nat left]"
  have mv: "partition_move w t index0 left = Inr t0"
    using assms by (simp add: partition_move_ok t0_def)
  have l0: "length t0 = length t" by (simp add: t0_def)
  have "\<exists>t' index'. partition_loop w t0 mid left left right = Inr (t', index') \<and>
     length t' = length t0 \<and> left \<le> index' \<and> index' \<le> right \<and>
     (\<forall>p. left \<le> p \<and> p < index' \<longrightarrow> t' ! nat p \<le> mid) \<and>
     (\<forall>p. index' < p \<and> p \<le> right \<longrightarrow> mid \<le> t' ! nat p) \<and>
     (\<forall>p. 0 \<le> p \<and> (p < left \<or> right < p) \<longrightarrow> t' ! nat p = t0 ! nat p) \<and>
     mset (t'[nat index' := mid]) = mset (t0[nat left := mid])"
    by (rule partition_loop_spec) (use assms l0 in auto)
  then obtain t1 index where lp: "partition_loop w t0 mid left left right = Inr (t1, index)"
    and l1: "length t1 = length t0" and ib: "left \<le> index" "index \<le> right"
    and lo: "\<And>p. left \<le> p \<Longrightarrow> p < index \<Longrightarrow> t1 ! nat p \<le> mid"
    and hi: "\<And>p. index < p \<Longrightarrow> p \<le> right \<Longrightarrow> mid \<le> t1 ! nat p"
    and fr: "\<And>p. 0 \<le> p \<Longrightarrow> p < left \<or> right < p \<Longrightarrow> t1 ! nat p = t0 ! nat p"
    and ms: "mset (t1[nat index := mid]) = mset (t0[nat left := mid])"
    by blast
  define t2 where "t2 = t1[nat index := mid]"
  have wr2: "wr_in w t1 index mid = Inr t2"
    using assms ib l1 l0 by (simp add: wr_in_ok t2_def)
  have e: "select_partition w t mid left right index0 = Inr (t2, index)"
    using mv lp wr2 by (simp add: select_partition_def)
  have l2: "length t2 = length t" by (simp add: t2_def l1 l0)
  have at2: "t2 ! nat q = (if q = index then mid else t1 ! nat q)" if "0 \<le> q" for q
    using that assms ib l1 l0 unfolding t2_def by (simp add: nth_upd_int)
  have a: "t2 ! nat index = mid" using assms ib by (simp add: at2)
  have b: "t2 ! nat p \<le> mid" if "left \<le> p" "p < index" for p
    using that assms lo [of p] by (simp add: at2)
  have c: "mid \<le> t2 ! nat p" if "index < p" "p \<le> right" for p
    using that assms ib hi [of p] by (simp add: at2)
  have d: "t2 ! nat p = t ! nat p" if "0 \<le> p" "p < left \<or> right < p" for p
  proof -
    from that ib have "t2 ! nat p = t1 ! nat p" by (auto simp: at2)
    also from that have "\<dots> = t0 ! nat p" by (rule fr)
    also from that assms have "\<dots> = t ! nat p" unfolding t0_def by (auto simp: nth_upd_int)
    finally show ?thesis .
  qed
  have "mset (t0[nat left := mid]) = mset (t[nat index0 := mid])"
    unfolding t0_def by (rule mset_hole_move) (use assms in auto)
  also have "t[nat index0 := mid] = t"
    using assms(8) list_update_id [of t "nat index0"] by simp
  finally have "mset t2 = mset t" using ms by (simp add: t2_def)
  with e l2 ib a b c d show ?thesis by auto
qed

subsection \<open>Slices of the arrays\<close>

lemma length_segment:
  "0 \<le> l \<Longrightarrow> r < int (length xs) \<Longrightarrow> length (segment xs l r) = nat (r + 1 - l)"
  by (auto simp: segment_def)

lemma nth_segment:
  assumes "0 \<le> l" "r < int (length xs)" "l \<le> p" "p \<le> r"
  shows "segment xs l r ! nat (p - l) = xs ! nat p"
proof -
  have a: "nat l + nat (p - l) = nat p" using assms by linarith
  have b: "nat (p - l) < nat (r + 1 - l)" using assms by linarith
  have c: "nat l \<le> length xs" using assms by linarith
  have "take (nat (r + 1 - l)) (drop (nat l) xs) ! nat (p - l) = drop (nat l) xs ! nat (p - l)"
    using b by (rule nth_take)
  also have "\<dots> = xs ! (nat l + nat (p - l))" using c by (rule nth_drop)
  finally show ?thesis unfolding segment_def a .
qed

lemma segment_eqI:
  assumes "0 \<le> l" "r < int (length xs)" "r < int (length ys)"
    "\<And>p. l \<le> p \<Longrightarrow> p \<le> r \<Longrightarrow> xs ! nat p = ys ! nat p"
  shows "segment xs l r = segment ys l r"
proof (rule nth_equalityI)
  show "length (segment xs l r) = length (segment ys l r)"
    using assms by (simp add: length_segment)
next
  fix k assume "k < length (segment xs l r)"
  with assms have k: "int k \<le> r - l" by (simp add: length_segment)
  have "segment xs l r ! nat (l + int k - l) = xs ! nat (l + int k)"
    by (rule nth_segment) (use assms k in auto)
  moreover have "segment ys l r ! nat (l + int k - l) = ys ! nat (l + int k)"
    by (rule nth_segment) (use assms k in auto)
  moreover have "xs ! nat (l + int k) = ys ! nat (l + int k)"
    by (rule assms(4)) (use k in auto)
  ultimately show "segment xs l r ! k = segment ys l r ! k" by simp
qed

lemma segment_split:
  assumes "0 \<le> l" "l \<le> m" "m \<le> r" "r < int (length xs)"
  shows "segment xs l r = segment xs l (m - 1) @ xs ! nat m # segment xs (m + 1) r"
proof -
  have n: "nat (r + 1 - l) = nat (m - l) + Suc (nat (r - m))" using assms by simp
  have "nat (m - l) + nat l = nat m" using assms by linarith
  then have d: "drop (nat (m - l)) (drop (nat l) xs) = drop (nat m) xs" by simp
  have c: "drop (nat m) xs = xs ! nat m # drop (nat (m + 1)) xs"
    using assms by (simp add: Cons_nth_drop_Suc nat_add_distrib)
  have "segment xs l r = take (nat (m - l)) (drop (nat l) xs) @
          take (Suc (nat (r - m))) (drop (nat (m - l)) (drop (nat l) xs))"
    unfolding segment_def n take_add ..
  also have "\<dots> = segment xs l (m - 1) @ xs ! nat m # segment xs (m + 1) r"
    unfolding d c by (simp add: segment_def)
  finally show ?thesis .
qed

lemma segment_whole: "segment xs 0 (int (length xs) - 1) = xs"
  by (simp add: segment_def)

lemma segment_decompose:
  assumes "0 \<le> l" "l \<le> r + 1" "r < int (length xs)"
  shows "xs = take (nat l) xs @ segment xs l r @ drop (nat (r + 1)) xs"
proof -
  have "nat (r + 1 - l) + nat l = nat (r + 1)" using assms by linarith
  then have "drop (nat (r + 1 - l)) (drop (nat l) xs) = drop (nat (r + 1)) xs" by simp
  with append_take_drop_id [of "nat (r + 1 - l)" "drop (nat l) xs"]
  have "drop (nat l) xs = segment xs l r @ drop (nat (r + 1)) xs"
    by (simp only: segment_def)
  then have "take (nat l) xs @ drop (nat l) xs = take (nat l) xs @ segment xs l r @ drop (nat (r + 1)) xs"
    by simp
  then show ?thesis by simp
qed

lemma mset_segment_frame:
  assumes "0 \<le> l" "l \<le> r + 1" "r < int (length xs)" "length ys = length xs"
    "mset ys = mset xs"
    "\<And>p. 0 \<le> p \<Longrightarrow> p < l \<or> r < p \<Longrightarrow> ys ! nat p = xs ! nat p"
  shows "mset (segment ys l r) = mset (segment xs l r)"
proof -
  have t: "take (nat l) ys = take (nat l) xs"
  proof (rule nth_equalityI)
    show "length (take (nat l) ys) = length (take (nat l) xs)" using assms by simp
    fix k assume "k < length (take (nat l) ys)"
    then have "k < nat l" by simp
    then have "int k < l" by linarith
    with assms(6) [of "int k"] show "take (nat l) ys ! k = take (nat l) xs ! k" by simp
  qed
  have d: "drop (nat (r + 1)) ys = drop (nat (r + 1)) xs"
  proof (rule nth_equalityI)
    show "length (drop (nat (r + 1)) ys) = length (drop (nat (r + 1)) xs)" using assms by simp
    fix k assume "k < length (drop (nat (r + 1)) ys)"
    then have le: "nat (r + 1) \<le> length ys" "nat (r + 1) \<le> length xs"
      using assms(4) by simp_all
    have "nat (r + 1 + int k) = nat (r + 1) + k" using assms(1,2) by linarith
    with assms(6) [of "r + 1 + int k"] assms(1,2)
    have "ys ! (nat (r + 1) + k) = xs ! (nat (r + 1) + k)" by simp
    then show "drop (nat (r + 1)) ys ! k = drop (nat (r + 1)) xs ! k"
      by (simp only: nth_drop [OF le(1)] nth_drop [OF le(2)])
  qed
  have "mset (take (nat l) ys @ segment ys l r @ drop (nat (r + 1)) ys) =
        mset (take (nat l) xs @ segment xs l r @ drop (nat (r + 1)) xs)"
    using segment_decompose [of l r xs] segment_decompose [of l r ys] assms by simp
  then show ?thesis unfolding t d by simp
qed

lemma set_segment:
  assumes "0 \<le> l" "r < int (length xs)" "x \<in> set (segment xs l r)"
  shows "\<exists>p. l \<le> p \<and> p \<le> r \<and> x = xs ! nat p"
proof -
  from assms(3) obtain k where k: "k < length (segment xs l r)" "x = segment xs l r ! k"
    by (auto simp: in_set_conv_nth)
  with assms have kb: "int k \<le> r - l" by (simp add: length_segment)
  have "segment xs l r ! nat (l + int k - l) = xs ! nat (l + int k)"
    by (rule nth_segment) (use assms kb in auto)
  with k kb show ?thesis by (intro exI [of _ "l + int k"]) auto
qed

lemma sorted_segment: "sorted xs \<Longrightarrow> sorted (segment xs l r)"
  unfolding segment_def by (intro sorted_wrt_take sorted_wrt_drop)

lemma seg_split:
  assumes "sorted srt" "0 \<le> left" "left \<le> index" "index \<le> right"
    "right < int (length srt)" "right < int (length t)"
    and ms: "mset (segment t left right) = mset (segment srt left right)"
    and lo: "\<forall>p. left \<le> p \<and> p < index \<longrightarrow> t ! nat p \<le> t ! nat index"
    and hi: "\<forall>p. index < p \<and> p \<le> right \<longrightarrow> t ! nat index \<le> t ! nat p"
  shows "mset (segment t left (index - 1)) = mset (segment srt left (index - 1)) \<and>
    t ! nat index = srt ! nat index \<and>
    mset (segment t (index + 1) right) = mset (segment srt (index + 1) right)"
proof -
  define A where "A = segment t left (index - 1)"
  define B where "B = segment t (index + 1) right"
  define m where "m = t ! nat index"
  have tt: "segment t left right = A @ m # B"
    unfolding A_def B_def m_def by (rule segment_split) (use assms in auto)
  have ss: "segment srt left right =
      segment srt left (index - 1) @ srt ! nat index # segment srt (index + 1) right"
    by (rule segment_split) (use assms in auto)
  have Am: "x \<le> m" if "x \<in> set A" for x
  proof -
    have "\<exists>p. left \<le> p \<and> p \<le> index - 1 \<and> x = t ! nat p"
      by (rule set_segment) (use assms that in \<open>auto simp: A_def\<close>)
    with lo show ?thesis by (auto simp: m_def)
  qed
  have mB: "m \<le> x" if "x \<in> set B" for x
  proof -
    have "\<exists>p. index + 1 \<le> p \<and> p \<le> right \<and> x = t ! nat p"
      by (rule set_segment) (use assms that in \<open>auto simp: B_def\<close>)
    with hi show ?thesis by (auto simp: m_def)
  qed
  have so: "sorted (sort A @ m # sort B)"
    using Am mB by (fastforce simp: sorted_append)
  have "mset (sort A @ m # sort B) = mset (segment srt left right)"
    using ms by (simp add: tt)
  from properties_for_sort [OF this so]
  have "sort (segment srt left right) = sort A @ m # sort B" .
  moreover have "sort (segment srt left right) = segment srt left right"
    by (rule sorted_sort_id) (rule sorted_segment, rule assms(1))
  ultimately have eq: "segment srt left (index - 1) @ srt ! nat index # segment srt (index + 1) right
      = sort A @ m # sort B" using ss by simp
  have "length (segment srt left (index - 1)) = length (sort A)"
    using assms by (simp add: A_def length_segment)
  with eq have "segment srt left (index - 1) = sort A"
    "srt ! nat index # segment srt (index + 1) right = m # sort B"
    by (simp_all add: append_eq_append_conv)
  then have "mset (segment srt left (index - 1)) = mset A" "srt ! nat index = m"
    "mset (segment srt (index + 1) right) = mset B"
    by (simp_all del: sort_key_simps)
  then show ?thesis by (simp add: A_def B_def m_def)
qed

subsection \<open>The ranks\<close>

lemma word_of_int_less_iff64:
  "0 \<le> x \<Longrightarrow> x < 2 ^ 64 \<Longrightarrow> 0 \<le> y \<Longrightarrow> y < 2 ^ 64 \<Longrightarrow>
   ((word_of_int x :: 64 word) < word_of_int y) = (x < y)"
  by (simp add: word_less_def uint_word_of_int)

lemma uint_word_of_int64:
  "0 \<le> x \<Longrightarrow> x < 2 ^ 64 \<Longrightarrow> uint (word_of_int x :: 64 word) = x"
  by (simp add: uint_word_of_int)

lemma word_of_int_eq_0_iff64:
  assumes "0 \<le> x" "x < 2 ^ 64"
  shows "((word_of_int x :: 64 word) = 0) = (x = 0)"
proof
  assume "(word_of_int x :: 64 word) = 0"
  then have "uint (word_of_int x :: 64 word) = 0" by simp
  with assms show "x = 0" by (simp add: uint_word_of_int64)
qed simp

lemma select_skip_spec:
  assumes "0 \<le> i" "qright < int (length askl)" "i \<le> qright + 1" "0 \<le> now" "now < 2 ^ 64"
    and "\<forall>q. i \<le> q \<and> q \<le> qright \<longrightarrow> askl ! nat q = word_of_int (a q) \<and> 0 \<le> a q \<and> a q < 2 ^ 64"
    and "\<forall>q q'. i \<le> q \<and> q \<le> q' \<and> q' \<le> qright \<longrightarrow> a q \<le> a q'"
  shows "\<exists>i'. select_skip askl now i qright = Inr i' \<and> i \<le> i' \<and> i' \<le> qright + 1 \<and>
           (\<forall>q. i \<le> q \<and> q < i' \<longrightarrow> a q < now) \<and> (\<forall>q. i' \<le> q \<and> q \<le> qright \<longrightarrow> now \<le> a q)"
  using assms
proof (induction askl now i qright rule: select_skip.induct)
  case (1 askl now i qright)
  note p = "1.prems"
  show ?case
  proof (cases "i \<le> qright")
    case False
    with p show ?thesis by (subst select_skip.simps) auto
  next
    case True
    with p have r: "rd askl i = Inr (askl ! nat i)" by (simp add: rd_ok)
    from True p(6) have ai: "askl ! nat i = word_of_int (a i)" "0 \<le> a i" "a i < 2 ^ 64"
      by auto
    have lt: "(askl ! nat i < word_of_int now) = (a i < now)"
      unfolding ai(1) using ai(2,3) p(4,5) by (rule word_of_int_less_iff64)
    show ?thesis
    proof (cases "a i < now")
      case False
      have "now \<le> a q" if "i \<le> q" "q \<le> qright" for q
        using that p(7) False by (meson order.trans linorder_not_less order_refl)
      with True r lt False show ?thesis by (subst select_skip.simps) auto
    next
      case less: True
      with lt have lt': "askl ! nat i < word_of_int now" by simp
      have "\<exists>i'. select_skip askl now (i + 1) qright = Inr i' \<and> i + 1 \<le> i' \<and> i' \<le> qright + 1 \<and>
           (\<forall>q. i + 1 \<le> q \<and> q < i' \<longrightarrow> a q < now) \<and> (\<forall>q. i' \<le> q \<and> q \<le> qright \<longrightarrow> now \<le> a q)"
        by (rule "1.IH" [OF True r lt']) (use p True in auto)
      then obtain i' where e': "select_skip askl now (i + 1) qright = Inr i'"
        and b: "i + 1 \<le> i'" "i' \<le> qright + 1"
        and u: "\<And>q. i + 1 \<le> q \<Longrightarrow> q < i' \<Longrightarrow> a q < now"
        and v: "\<forall>q. i' \<le> q \<and> q \<le> qright \<longrightarrow> now \<le> a q" by auto
      have e: "select_skip askl now i qright = Inr i'"
        using True r lt' e' by (subst select_skip.simps) simp
      have "a q < now" if "i \<le> q" "q < i'" for q
        using that u [of q] less by (cases "q = i") auto
      with e b v show ?thesis by auto
    qed
  qed
qed

lemma select_sub_spec:
  assumes "0 \<le> j" "qright < int (length askl)"
  shows "\<exists>a1. select_sub askl now j qright = Inr a1 \<and> length a1 = length askl \<and>
           (\<forall>q. 0 \<le> q \<and> (q < j \<or> qright < q) \<longrightarrow> a1 ! nat q = askl ! nat q) \<and>
           (\<forall>q. j \<le> q \<and> q \<le> qright \<longrightarrow> a1 ! nat q = askl ! nat q - word_of_int now)"
  using assms
proof (induction askl now j qright rule: select_sub.induct)
  case (1 askl now j qright)
  note p = "1.prems"
  show ?case
  proof (cases "j \<le> qright")
    case False
    then show ?thesis by (subst select_sub.simps) auto
  next
    case True
    define a0 where "a0 = askl[nat j := askl ! nat j - word_of_int now]"
    from True p have r: "rd askl j = Inr (askl ! nat j)" by (simp add: rd_ok)
    from True p have w: "wr askl j (askl ! nat j - word_of_int now) = Inr a0"
      by (simp add: wr_ok a0_def)
    have "\<exists>a1. select_sub a0 now (j + 1) qright = Inr a1 \<and> length a1 = length a0 \<and>
           (\<forall>q. 0 \<le> q \<and> (q < j + 1 \<or> qright < q) \<longrightarrow> a1 ! nat q = a0 ! nat q) \<and>
           (\<forall>q. j + 1 \<le> q \<and> q \<le> qright \<longrightarrow> a1 ! nat q = a0 ! nat q - word_of_int now)"
      by (rule "1.IH" [OF True r w]) (use p in \<open>auto simp: a0_def\<close>)
    then obtain a1 where e': "select_sub a0 now (j + 1) qright = Inr a1"
      and l: "length a1 = length a0"
      and u: "\<And>q. 0 \<le> q \<Longrightarrow> q < j + 1 \<or> qright < q \<Longrightarrow> a1 ! nat q = a0 ! nat q"
      and v: "\<And>q. j + 1 \<le> q \<Longrightarrow> q \<le> qright \<Longrightarrow> a1 ! nat q = a0 ! nat q - word_of_int now"
      by auto
    have e: "select_sub askl now j qright = Inr a1"
      using True r w e' by (subst select_sub.simps) simp
    have at0: "a0 ! nat q = (if q = j then askl ! nat j - word_of_int now else askl ! nat q)"
      if "0 \<le> q" for q
      using that p True unfolding a0_def by (simp add: nth_upd_int)
    have a: "a1 ! nat q = askl ! nat q" if "0 \<le> q" "q < j \<or> qright < q" for q
      using that u [of q] True by (auto simp: at0)
    have b: "a1 ! nat q = askl ! nat q - word_of_int now" if "j \<le> q" "q \<le> qright" for q
    proof (cases "q = j")
      case True
      with p u [of q] show ?thesis by (simp add: at0)
    next
      case False
      with that p v [of q] show ?thesis by (simp add: at0)
    qed
    from e l a b show ?thesis by (auto simp: a0_def)
  qed
qed

lemma select_bump_spec:
  assumes "0 \<le> j" "qright < int (length askl)" "j \<le> qright + 1"
  shows "\<exists>a2 j'. select_bump askl j qright = Inr (a2, j') \<and> length a2 = length askl \<and>
     j \<le> j' \<and> j' \<le> qright + 1 \<and>
     (\<forall>q. j \<le> q \<and> q < j' \<longrightarrow> askl ! nat q = 0 \<and> a2 ! nat q = 1) \<and>
     (j' \<le> qright \<longrightarrow> askl ! nat j' \<noteq> 0) \<and>
     (\<forall>q. 0 \<le> q \<and> (q < j \<or> j' \<le> q) \<longrightarrow> a2 ! nat q = askl ! nat q)"
  using assms
proof (induction askl j qright rule: select_bump.induct)
  case (1 askl j qright)
  note p = "1.prems"
  show ?case
  proof (cases "j \<le> qright")
    case False
    with p show ?thesis by (subst select_bump.simps) auto
  next
    case True
    with p have r: "rd askl j = Inr (askl ! nat j)" by (simp add: rd_ok)
    show ?thesis
    proof (cases "askl ! nat j = 0")
      case False
      with True r show ?thesis by (subst select_bump.simps) auto
    next
      case z: True
      define a0 where "a0 = askl[nat j := askl ! nat j + 1]"
      from True p have w: "wr askl j (askl ! nat j + 1) = Inr a0" by (simp add: wr_ok a0_def)
      have at0: "a0 ! nat q = (if q = j then 1 else askl ! nat q)" if "0 \<le> q" for q
        using that p True z unfolding a0_def by (simp add: nth_upd_int)
      have "\<exists>a2 j'. select_bump a0 (j + 1) qright = Inr (a2, j') \<and> length a2 = length a0 \<and>
         j + 1 \<le> j' \<and> j' \<le> qright + 1 \<and>
         (\<forall>q. j + 1 \<le> q \<and> q < j' \<longrightarrow> a0 ! nat q = 0 \<and> a2 ! nat q = 1) \<and>
         (j' \<le> qright \<longrightarrow> a0 ! nat j' \<noteq> 0) \<and>
         (\<forall>q. 0 \<le> q \<and> (q < j + 1 \<or> j' \<le> q) \<longrightarrow> a2 ! nat q = a0 ! nat q)"
        by (rule "1.IH" [OF True r z w]) (use p True in \<open>auto simp: a0_def\<close>)
      then obtain a2 j' where e': "select_bump a0 (j + 1) qright = Inr (a2, j')"
        and l: "length a2 = length a0" and b: "j + 1 \<le> j'" "j' \<le> qright + 1"
        and u: "\<And>q. j + 1 \<le> q \<Longrightarrow> q < j' \<Longrightarrow> a0 ! nat q = 0 \<and> a2 ! nat q = 1"
        and nz: "j' \<le> qright \<longrightarrow> a0 ! nat j' \<noteq> 0"
        and v: "\<And>q. 0 \<le> q \<Longrightarrow> q < j + 1 \<or> j' \<le> q \<Longrightarrow> a2 ! nat q = a0 ! nat q"
        by auto
      have e: "select_bump askl j qright = Inr (a2, j')"
        using True r z w e' by (subst select_bump.simps) simp
      have c1: "askl ! nat q = 0 \<and> a2 ! nat q = 1" if "j \<le> q" "q < j'" for q
      proof (cases "q = j")
        case True
        with p z v [of q] show ?thesis by (simp add: at0)
      next
        case False
        with that p u [of q] show ?thesis by (simp add: at0)
      qed
      have c2: "j' \<le> qright \<longrightarrow> askl ! nat j' \<noteq> 0"
        using nz b p by (simp add: at0)
      have c3: "a2 ! nat q = askl ! nat q" if "0 \<le> q" "q < j \<or> j' \<le> q" for q
        using that v [of q] b by (auto simp: at0)
      from e l b c1 c2 c3 show ?thesis by (auto simp: a0_def)
    qed
  qed
qed

lemma select_ranks_spec:
  assumes "0 \<le> qleft" "qleft \<le> qright" "qright < int (length askl)" "1 \<le> now" "now < 2 ^ 64"
    and asks: "\<forall>q. qleft \<le> q \<and> q \<le> qright \<longrightarrow>
                 askl ! nat q = word_of_int (a q) \<and> 1 \<le> a q \<and> a q < 2 ^ 64"
    and mono: "\<forall>q q'. qleft \<le> q \<and> q \<le> q' \<and> q' \<le> qright \<longrightarrow> a q \<le> a q'"
  shows "\<exists>a2 i j. select_ranks askl now qleft qright = Inr (a2, i, j) \<and>
     length a2 = length askl \<and> qleft \<le> i \<and> i \<le> j \<and> j \<le> qright + 1 \<and>
     (\<forall>q. qleft \<le> q \<and> q < i \<longrightarrow> a q < now \<and> a2 ! nat q = askl ! nat q) \<and>
     (\<forall>q. i \<le> q \<and> q < j \<longrightarrow> a q = now \<and> a2 ! nat q = 1) \<and>
     (\<forall>q. j \<le> q \<and> q \<le> qright \<longrightarrow> now < a q \<and> a2 ! nat q = word_of_int (a q - now)) \<and>
     (\<forall>q. 0 \<le> q \<and> (q < qleft \<or> qright < q) \<longrightarrow> a2 ! nat q = askl ! nat q)"
proof -
  have "\<exists>i'. select_skip askl now qleft qright = Inr i' \<and> qleft \<le> i' \<and> i' \<le> qright + 1 \<and>
           (\<forall>q. qleft \<le> q \<and> q < i' \<longrightarrow> a q < now) \<and> (\<forall>q. i' \<le> q \<and> q \<le> qright \<longrightarrow> now \<le> a q)"
    by (rule select_skip_spec) (use assms in auto)
  then obtain i where sk: "select_skip askl now qleft qright = Inr i"
    and ib: "qleft \<le> i" "i \<le> qright + 1"
    and ilt: "\<And>q. qleft \<le> q \<Longrightarrow> q < i \<Longrightarrow> a q < now"
    and ige: "\<And>q. i \<le> q \<Longrightarrow> q \<le> qright \<Longrightarrow> now \<le> a q" by blast
  have "\<exists>a1. select_sub askl now i qright = Inr a1 \<and> length a1 = length askl \<and>
           (\<forall>q. 0 \<le> q \<and> (q < i \<or> qright < q) \<longrightarrow> a1 ! nat q = askl ! nat q) \<and>
           (\<forall>q. i \<le> q \<and> q \<le> qright \<longrightarrow> a1 ! nat q = askl ! nat q - word_of_int now)"
    by (rule select_sub_spec) (use assms ib in auto)
  then obtain a1 where su: "select_sub askl now i qright = Inr a1"
    and l1: "length a1 = length askl"
    and f1: "\<And>q. 0 \<le> q \<Longrightarrow> q < i \<or> qright < q \<Longrightarrow> a1 ! nat q = askl ! nat q"
    and s1: "\<And>q. i \<le> q \<Longrightarrow> q \<le> qright \<Longrightarrow> a1 ! nat q = askl ! nat q - word_of_int now"
    by blast
  have a1v: "a1 ! nat q = word_of_int (a q - now)" if "i \<le> q" "q \<le> qright" for q
    using s1 [OF that] asks that ib by simp
  have "\<exists>a2 j'. select_bump a1 i qright = Inr (a2, j') \<and> length a2 = length a1 \<and>
     i \<le> j' \<and> j' \<le> qright + 1 \<and>
     (\<forall>q. i \<le> q \<and> q < j' \<longrightarrow> a1 ! nat q = 0 \<and> a2 ! nat q = 1) \<and>
     (j' \<le> qright \<longrightarrow> a1 ! nat j' \<noteq> 0) \<and>
     (\<forall>q. 0 \<le> q \<and> (q < i \<or> j' \<le> q) \<longrightarrow> a2 ! nat q = a1 ! nat q)"
    by (rule select_bump_spec) (use assms ib l1 in auto)
  then obtain a2 j where bu: "select_bump a1 i qright = Inr (a2, j)"
    and l2: "length a2 = length a1" and jb: "i \<le> j" "j \<le> qright + 1"
    and z: "\<And>q. i \<le> q \<Longrightarrow> q < j \<Longrightarrow> a1 ! nat q = 0 \<and> a2 ! nat q = 1"
    and nz: "j \<le> qright \<Longrightarrow> a1 ! nat j \<noteq> 0"
    and f2: "\<And>q. 0 \<le> q \<Longrightarrow> q < i \<or> j \<le> q \<Longrightarrow> a2 ! nat q = a1 ! nat q"
    by blast
  have e: "select_ranks askl now qleft qright = Inr (a2, i, j)"
    using sk su bu by (simp add: select_ranks_def)
  have rng: "0 \<le> a q - now" "a q - now < 2 ^ 64" if "i \<le> q" "q \<le> qright" for q
  proof -
    from that ib have "qleft \<le> q \<and> q \<le> qright" by simp
    with asks have "a q < 2 ^ 64" by blast
    with ige [OF that] assms(4) show "0 \<le> a q - now" "a q - now < 2 ^ 64" by simp_all
  qed
  have c1: "a q < now \<and> a2 ! nat q = askl ! nat q" if "qleft \<le> q" "q < i" for q
    using that ilt [of q] f2 [of q] f1 [of q] assms(1) by auto
  have c2: "a q = now \<and> a2 ! nat q = 1" if "i \<le> q" "q < j" for q
  proof -
    from that jb have q: "i \<le> q" "q \<le> qright" by auto
    have "(word_of_int (a q - now) :: 64 word) = 0"
      unfolding a1v [OF q, symmetric] using z [OF that] by blast
    with rng [OF q] word_of_int_eq_0_iff64 [of "a q - now"] have "a q - now = 0" by blast
    with z [OF that] show ?thesis by simp
  qed
  have jgt: "now < a j" if "j \<le> qright"
  proof -
    from that jb have q: "i \<le> j" "j \<le> qright" by auto
    have "(word_of_int (a j - now) :: 64 word) \<noteq> 0"
      unfolding a1v [OF q, symmetric] using nz [OF that] by blast
    with rng [OF q] word_of_int_eq_0_iff64 [of "a j - now"] have "a j - now \<noteq> 0" by blast
    with ige [OF q] show ?thesis by simp
  qed
  have c3: "now < a q \<and> a2 ! nat q = word_of_int (a q - now)" if "j \<le> q" "q \<le> qright" for q
  proof -
    from that have "j \<le> qright" by simp
    from jgt [OF this] mono that ib jb have "now < a q"
      by (meson less_le_trans order.trans)
    moreover from that ib jb assms(1) have "a2 ! nat q = a1 ! nat q" by (intro f2) auto
    moreover from that jb have "a1 ! nat q = word_of_int (a q - now)" by (intro a1v) auto
    ultimately show ?thesis by simp
  qed
  have c4: "a2 ! nat q = askl ! nat q" if "0 \<le> q" "q < qleft \<or> qright < q" for q
  proof -
    from that ib jb have "a2 ! nat q = a1 ! nat q" by (intro f2) auto
    also from that ib have "\<dots> = askl ! nat q" by (intro f1) auto
    finally show ?thesis .
  qed
  from e l1 l2 ib jb c1 c2 c3 c4 show ?thesis by auto
qed

lemma insert_calc_queue_ok:
  "0 \<le> ct \<Longrightarrow> ct + 1 < int (length cq) \<Longrightarrow>
   insert_calc_queue cq left right qleft qright ct =
     Inr (cq[nat (ct + 1) := (left, right, qleft, qright)], ct + 1)"
  by (simp add: insert_calc_queue_def wr_ok Let_def)

lemma select_push_ok:
  assumes "0 \<le> ct" "ct + 3 < int (length cq)"
  shows "select_push cq left right index qleft qright i j ct =
     Inr (cq[nat (ct + 1) := (left, index - 1, qleft, i - 1),
             nat (ct + 2) := (index, index, i, j - 1),
             nat (ct + 3) := (index + 1, right, j, qright)], ct + 3)"
  using assms by (simp add: select_push_def insert_calc_queue_ok add.commute)

lemma select_answers_spec:
  assumes "0 \<le> i" "qright < int (length askl)" "qright < int (length ansl)"
    "0 \<le> left" "left < int (length tmpl)"
    "\<forall>q. i \<le> q \<and> q \<le> qright \<longrightarrow> askl ! nat q = 1"
  shows "\<exists>ans'. select_answers askl ansl tmpl left i qright = Inr ans' \<and>
     length ans' = length ansl \<and>
     (\<forall>q. i \<le> q \<and> q \<le> qright \<longrightarrow> ans' ! nat q = tmpl ! nat left) \<and>
     (\<forall>q. 0 \<le> q \<and> (q < i \<or> qright < q) \<longrightarrow> ans' ! nat q = ansl ! nat q)"
  using assms
proof (induction askl ansl tmpl left i qright rule: select_answers.induct)
  case (1 askl ansl tmpl left i qright)
  note p = "1.prems"
  show ?case
  proof (cases "i \<le> qright")
    case False
    then show ?thesis by (subst select_answers.simps) auto
  next
    case True
    define a0 where "a0 = ansl[nat i := tmpl ! nat left]"
    from True p have r: "rd askl i = Inr (askl ! nat i)" by (simp add: rd_ok)
    from True p have one: "askl ! nat i = 1" by auto
    from p have rt: "rd tmpl left = Inr (tmpl ! nat left)" by (simp add: rd_ok)
    from True p have w: "wr ansl i (tmpl ! nat left) = Inr a0" by (simp add: wr_ok a0_def)
    have "\<exists>ans'. select_answers askl a0 tmpl left (i + 1) qright = Inr ans' \<and>
       length ans' = length a0 \<and>
       (\<forall>q. i + 1 \<le> q \<and> q \<le> qright \<longrightarrow> ans' ! nat q = tmpl ! nat left) \<and>
       (\<forall>q. 0 \<le> q \<and> (q < i + 1 \<or> qright < q) \<longrightarrow> ans' ! nat q = a0 ! nat q)"
      by (rule "1.IH" (1) [OF True r one rt w]) (use p in \<open>auto simp: a0_def\<close>)
    then obtain ans' where e': "select_answers askl a0 tmpl left (i + 1) qright = Inr ans'"
      and l: "length ans' = length a0"
      and u: "\<And>q. i + 1 \<le> q \<Longrightarrow> q \<le> qright \<Longrightarrow> ans' ! nat q = tmpl ! nat left"
      and v: "\<And>q. 0 \<le> q \<Longrightarrow> q < i + 1 \<or> qright < q \<Longrightarrow> ans' ! nat q = a0 ! nat q"
      by auto
    have e: "select_answers askl ansl tmpl left i qright = Inr ans'"
      using True r one rt w e' by (subst select_answers.simps) simp
    have at0: "a0 ! nat q = (if q = i then tmpl ! nat left else ansl ! nat q)" if "0 \<le> q" for q
      using that p True unfolding a0_def by (simp add: nth_upd_int)
    have a: "ans' ! nat q = tmpl ! nat left" if "i \<le> q" "q \<le> qright" for q
    proof (cases "q = i")
      case True
      with p v [of q] show ?thesis by (simp add: at0)
    next
      case False
      with that u [of q] show ?thesis by simp
    qed
    have b: "ans' ! nat q = ansl ! nat q" if "0 \<le> q" "q < i \<or> qright < q" for q
      using that v [of q] True by (auto simp: at0)
    from e l a b show ?thesis by (auto simp: a0_def)
  qed
qed

subsection \<open>\<^verbatim>\<open>select\<close> on a task in order\<close>

lemma segment_single:
  assumes "0 \<le> i" "i < int (length xs)"
  shows "segment xs i i = [xs ! nat i]"
proof -
  have "nat i < length xs" using assms by linarith
  then have "drop (nat i) xs = xs ! nat i # drop (Suc (nat i)) xs"
    by (simp add: Cons_nth_drop_Suc)
  then show ?thesis by (simp add: segment_def)
qed

lemma select_split_spec:
  assumes srt: "sorted srt" "int (length srt) \<le> int (length (c_tmp s))" "int (length srt) < 2 ^ 63"
    and lens: "length (c_mid_temp s) = length (c_tmp s)"
    and ct: "0 \<le> ct" "ct + 3 < int (length (c_calc_queue s))"
    and mono: "\<forall>q q'. q \<le> q' \<longrightarrow> tg q \<le> tg q'"
    and ok: "task_ok srt tg (c_tmp s) (c_ask s) (left, right, ql, qr)"
    and q: "ql \<le> qr" and lr: "left \<noteq> right"
  shows "\<exists>t m1 a2 index i j.
     select s left right ql qr ct =
       Inr (s\<lparr>c_tmp := t, c_mid_temp := m1, c_ask := a2,
              c_calc_queue := (c_calc_queue s)
                [nat (ct + 1) := (left, index - 1, ql, i - 1),
                 nat (ct + 2) := (index, index, i, j - 1),
                 nat (ct + 3) := (index + 1, right, j, qr)]\<rparr>, ct + 3) \<and>
     length t = length (c_tmp s) \<and> length m1 = length (c_mid_temp s) \<and>
     length a2 = length (c_ask s) \<and>
     left \<le> index \<and> index \<le> right \<and> ql \<le> i \<and> i \<le> j \<and> j \<le> qr + 1 \<and>
     (\<forall>p. 0 \<le> p \<and> (p < left \<or> right < p) \<longrightarrow> t ! nat p = c_tmp s ! nat p) \<and>
     (\<forall>q. 0 \<le> q \<and> (q < ql \<or> qr < q) \<longrightarrow> a2 ! nat q = c_ask s ! nat q) \<and>
     task_ok srt tg t a2 (left, index - 1, ql, i - 1) \<and>
     task_ok srt tg t a2 (index, index, i, j - 1) \<and>
     task_ok srt tg t a2 (index + 1, right, j, qr)"
proof -
  from ok q have b: "0 \<le> left" "left \<le> right" "right < int (length srt)"
    "0 \<le> ql" "qr < int (length (c_ask s))"
    and ms: "mset (segment (c_tmp s) left right) = mset (segment srt left right)"
    and tgs: "\<And>q. ql \<le> q \<Longrightarrow> q \<le> qr \<Longrightarrow>
       left \<le> tg q \<and> tg q \<le> right \<and> c_ask s ! nat q = word_of_int (tg q - left + 1)"
    by (auto simp: task_ok_def)
  from b srt have rt: "right < int (length (c_tmp s))" by simp
  have "\<exists>mid m1 index0. select_pivot (c_tmp s) (c_mid_temp s) left right = Inr (mid, m1, index0) \<and>
           length m1 = length (c_mid_temp s) \<and> left \<le> index0 \<and> index0 \<le> right \<and>
           c_tmp s ! nat index0 = mid"
    by (rule select_pivot_spec) (use b rt lens in auto)
  then obtain mid m1 index0 where
    pv: "select_pivot (c_tmp s) (c_mid_temp s) left right = Inr (mid, m1, index0)"
    and lm1: "length m1 = length (c_mid_temp s)"
    and i0: "left \<le> index0" "index0 \<le> right" "c_tmp s ! nat index0 = mid" by blast
  have "\<exists>t' index. select_partition (whole (c_tmp s)) (c_tmp s) mid left right index0
        = Inr (t', index) \<and>
      length t' = length (c_tmp s) \<and> left \<le> index \<and> index \<le> right \<and> t' ! nat index = mid \<and>
      (\<forall>p. left \<le> p \<and> p < index \<longrightarrow> t' ! nat p \<le> mid) \<and>
      (\<forall>p. index < p \<and> p \<le> right \<longrightarrow> mid \<le> t' ! nat p) \<and>
      (\<forall>p. 0 \<le> p \<and> (p < left \<or> right < p) \<longrightarrow> t' ! nat p = c_tmp s ! nat p) \<and>
      mset t' = mset (c_tmp s)"
    by (rule select_partition_spec) (use b rt i0 in \<open>auto simp: whole_def\<close>)
  then obtain t index where
    pt: "select_partition (whole (c_tmp s)) (c_tmp s) mid left right index0 = Inr (t, index)"
    and lt: "length t = length (c_tmp s)" and ib: "left \<le> index" "index \<le> right"
    and tm: "t ! nat index = mid"
    and lo: "\<forall>p. left \<le> p \<and> p < index \<longrightarrow> t ! nat p \<le> mid"
    and hi: "\<forall>p. index < p \<and> p \<le> right \<longrightarrow> mid \<le> t ! nat p"
    and fr: "\<And>p. 0 \<le> p \<Longrightarrow> p < left \<or> right < p \<Longrightarrow> t ! nat p = c_tmp s ! nat p"
    and mst: "mset t = mset (c_tmp s)" by blast
  have "mset (segment t left right) = mset (segment (c_tmp s) left right)"
    by (rule mset_segment_frame) (use b rt lt mst fr in auto)
  with ms have ms': "mset (segment t left right) = mset (segment srt left right)" by simp
  have "mset (segment t left (index - 1)) = mset (segment srt left (index - 1)) \<and>
    t ! nat index = srt ! nat index \<and>
    mset (segment t (index + 1) right) = mset (segment srt (index + 1) right)"
    by (rule seg_split) (use srt b rt lt ib ms' lo hi tm in auto)
  then have sA: "mset (segment t left (index - 1)) = mset (segment srt left (index - 1))"
    and sM: "t ! nat index = srt ! nat index"
    and sB: "mset (segment t (index + 1) right) = mset (segment srt (index + 1) right)"
    by auto
  define a where "a = (\<lambda>q. tg q - left + 1)"
  define now where "now = index - left + 1"
  have "\<exists>a2 i j. select_ranks (c_ask s) now ql qr = Inr (a2, i, j) \<and>
     length a2 = length (c_ask s) \<and> ql \<le> i \<and> i \<le> j \<and> j \<le> qr + 1 \<and>
     (\<forall>q. ql \<le> q \<and> q < i \<longrightarrow> a q < now \<and> a2 ! nat q = c_ask s ! nat q) \<and>
     (\<forall>q. i \<le> q \<and> q < j \<longrightarrow> a q = now \<and> a2 ! nat q = 1) \<and>
     (\<forall>q. j \<le> q \<and> q \<le> qr \<longrightarrow> now < a q \<and> a2 ! nat q = word_of_int (a q - now)) \<and>
     (\<forall>q. 0 \<le> q \<and> (q < ql \<or> qr < q) \<longrightarrow> a2 ! nat q = c_ask s ! nat q)"
  proof (rule select_ranks_spec)
    show "\<forall>q. ql \<le> q \<and> q \<le> qr \<longrightarrow>
           c_ask s ! nat q = word_of_int (a q) \<and> 1 \<le> a q \<and> a q < 2 ^ 64"
    proof (intro allI impI)
      fix q' assume "ql \<le> q' \<and> q' \<le> qr"
      with tgs [of q'] b srt(3)
      show "c_ask s ! nat q' = word_of_int (a q') \<and> 1 \<le> a q' \<and> a q' < 2 ^ 64"
        by (auto simp: a_def)
    qed
    show "\<forall>q q'. ql \<le> q \<and> q \<le> q' \<and> q' \<le> qr \<longrightarrow> a q \<le> a q'"
      using mono by (simp add: a_def)
    show "now < 2 ^ 64" using ib b srt(3) by (simp add: now_def)
  qed (use b q ib in \<open>auto simp: now_def\<close>)
  then obtain a2 i j where rk: "select_ranks (c_ask s) now ql qr = Inr (a2, i, j)"
    and la: "length a2 = length (c_ask s)" and qb: "ql \<le> i" "i \<le> j" "j \<le> qr + 1"
    and r1: "\<And>q. ql \<le> q \<Longrightarrow> q < i \<Longrightarrow> a q < now \<and> a2 ! nat q = c_ask s ! nat q"
    and r2: "\<And>q. i \<le> q \<Longrightarrow> q < j \<Longrightarrow> a q = now \<and> a2 ! nat q = 1"
    and r3: "\<And>q. j \<le> q \<Longrightarrow> q \<le> qr \<Longrightarrow> now < a q \<and> a2 ! nat q = word_of_int (a q - now)"
    and r4: "\<forall>q. 0 \<le> q \<and> (q < ql \<or> qr < q) \<longrightarrow> a2 ! nat q = c_ask s ! nat q"
    by blast
  define cq3 where "cq3 = (c_calc_queue s)
                [nat (ct + 1) := (left, index - 1, ql, i - 1),
                 nat (ct + 2) := (index, index, i, j - 1),
                 nat (ct + 3) := (index + 1, right, j, qr)]"
  have ps: "select_push (c_calc_queue s) left right index ql qr i j ct = Inr (cq3, ct + 3)"
    unfolding cq3_def by (rule select_push_ok) (use ct in auto)
  have e: "select s left right ql qr ct =
       Inr (s\<lparr>c_tmp := t, c_mid_temp := m1, c_ask := a2, c_calc_queue := cq3\<rparr>, ct + 3)"
    using q lr pv pt rk ps by (simp add: select_def now_def)
  have okA: "task_ok srt tg t a2 (left, index - 1, ql, i - 1)"
    unfolding task_ok_def prod.case
  proof (intro impI conjI allI)
    assume h: "ql \<le> i - 1"
    from r1 [of ql] h tgs [of ql] q show "left \<le> index - 1" by (auto simp: a_def now_def)
    show "0 \<le> left" "0 \<le> ql" by (rule b)+
    show "index - 1 < int (length srt)" using ib b by simp
    show "i - 1 < int (length a2)" using qb b la by simp
    show "mset (segment t left (index - 1)) = mset (segment srt left (index - 1))" by (rule sA)
  next
    fix q' assume h: "ql \<le> i - 1" and q': "ql \<le> q' \<and> q' \<le> i - 1"
    with r1 [of q'] tgs [of q'] qb
    show "left \<le> tg q'" "tg q' \<le> index - 1" "a2 ! nat q' = word_of_int (tg q' - left + 1)"
      by (auto simp: a_def now_def)
  qed
  have okM: "task_ok srt tg t a2 (index, index, i, j - 1)"
    unfolding task_ok_def prod.case
  proof (intro impI conjI allI)
    show "0 \<le> index" "index \<le> index" using ib b by simp_all
    show "index < int (length srt)" using ib b by simp
    assume h: "i \<le> j - 1"
    show "0 \<le> i" using qb b by simp
    show "j - 1 < int (length a2)" using qb b la by simp
    show "mset (segment t index index) = mset (segment srt index index)"
      using ib b rt lt sM by (simp add: segment_single)
  next
    fix q' assume q': "i \<le> q' \<and> q' \<le> j - 1"
    with r2 [of q']
    show "index \<le> tg q'" "tg q' \<le> index" "a2 ! nat q' = word_of_int (tg q' - index + 1)"
      by (auto simp: a_def now_def)
  qed
  have okB: "task_ok srt tg t a2 (index + 1, right, j, qr)"
    unfolding task_ok_def prod.case
  proof (intro impI conjI allI)
    assume h: "j \<le> qr"
    from r3 [of j] h tgs [of j] qb show "index + 1 \<le> right" by (auto simp: a_def now_def)
    show "0 \<le> index + 1" using ib b by simp
    show "right < int (length srt)" by (rule b)
    show "0 \<le> j" using qb b by simp
    show "qr < int (length a2)" using b la by simp
    show "mset (segment t (index + 1) right) = mset (segment srt (index + 1) right)" by (rule sB)
  next
    fix q' assume q': "j \<le> q' \<and> q' \<le> qr"
    with r3 [of q'] tgs [of q'] qb
    show "index + 1 \<le> tg q'" "tg q' \<le> right"
      by (auto simp: a_def now_def)
    have "a q' - now = tg q' - (index + 1) + 1" by (simp add: a_def now_def)
    with q' r3 [of q'] show "a2 ! nat q' = word_of_int (tg q' - (index + 1) + 1)" by simp
  qed
  from e lt lm1 la ib qb fr r4 okA okM okB show ?thesis
    unfolding cq3_def by blast
qed

lemma select_single_spec:
  assumes "int (length srt) \<le> int (length (c_tmp s))" "length (c_ans s) = length (c_ask s)"
    and ok: "task_ok srt tg (c_tmp s) (c_ask s) (left, left, ql, qr)"
    and q: "ql \<le> qr"
  shows "\<exists>a'. select s left left ql qr ct = Inr (s\<lparr>c_ans := a'\<rparr>, ct) \<and>
     length a' = length (c_ans s) \<and>
     (\<forall>q. ql \<le> q \<and> q \<le> qr \<longrightarrow> a' ! nat q = srt ! nat (tg q)) \<and>
     (\<forall>q. 0 \<le> q \<and> (q < ql \<or> qr < q) \<longrightarrow> a' ! nat q = c_ans s ! nat q)"
proof -
  from ok q have b: "0 \<le> left" "left < int (length srt)"
    "0 \<le> ql" "qr < int (length (c_ask s))"
    and ms: "mset (segment (c_tmp s) left left) = mset (segment srt left left)"
    and tgs: "\<And>q. ql \<le> q \<Longrightarrow> q \<le> qr \<Longrightarrow>
       tg q = left \<and> c_ask s ! nat q = word_of_int (tg q - left + 1)"
    by (auto simp: task_ok_def)
  from b assms(1) have lt: "left < int (length (c_tmp s))" by simp
  from ms b lt have eq: "c_tmp s ! nat left = srt ! nat left" by (simp add: segment_single)
  have "\<exists>ans'. select_answers (c_ask s) (c_ans s) (c_tmp s) left ql qr = Inr ans' \<and>
     length ans' = length (c_ans s) \<and>
     (\<forall>q. ql \<le> q \<and> q \<le> qr \<longrightarrow> ans' ! nat q = c_tmp s ! nat left) \<and>
     (\<forall>q. 0 \<le> q \<and> (q < ql \<or> qr < q) \<longrightarrow> ans' ! nat q = c_ans s ! nat q)"
  proof (rule select_answers_spec)
    show "\<forall>q. ql \<le> q \<and> q \<le> qr \<longrightarrow> c_ask s ! nat q = 1"
      using tgs by simp
  qed (use b lt assms(2) in auto)
  then obtain a' where sa: "select_answers (c_ask s) (c_ans s) (c_tmp s) left ql qr = Inr a'"
    and la: "length a' = length (c_ans s)"
    and v: "\<And>q. ql \<le> q \<Longrightarrow> q \<le> qr \<Longrightarrow> a' ! nat q = c_tmp s ! nat left"
    and f: "\<forall>q. 0 \<le> q \<and> (q < ql \<or> qr < q) \<longrightarrow> a' ! nat q = c_ans s ! nat q"
    by blast
  have e: "select s left left ql qr ct = Inr (s\<lparr>c_ans := a'\<rparr>, ct)"
    using q sa by (simp add: select_def)
  have "a' ! nat q' = srt ! nat (tg q')" if "ql \<le> q'" "q' \<le> qr" for q'
    using v [OF that] tgs [OF that] eq by simp
  with e la f show ?thesis by blast
qed

lemma pending_Cons: "l \<le> r \<Longrightarrow> pending cq l r = cq ! nat l # pending cq (l + 1) r"
  by (simp add: pending_def upto_rec1)

lemma pending_Nil: "r < l \<Longrightarrow> pending cq l r = []"
  by (simp add: pending_def)

lemma pending_update_above:
  assumes "0 \<le> l" "r < k"
  shows "pending (cq[nat k := T]) l r = pending cq l r"
  unfolding pending_def
proof (rule map_cong [OF refl])
  fix x assume "x \<in> set [l..r]"
  with assms have "nat x \<noteq> nat k" by auto
  then show "cq[nat k := T] ! nat x = cq ! nat x" by simp
qed

lemma pending_snoc:
  assumes "l \<le> r + 1"
  shows "pending cq l (r + 1) = pending cq l r @ [cq ! nat (r + 1)]"
  using assms by (simp add: pending_def upto_rec2)

lemma pending_push:
  assumes "0 \<le> l" "l \<le> r + 1" "r + 3 < int (length cq)"
  shows "pending (cq[nat (r + 1) := A, nat (r + 2) := M, nat (r + 3) := B]) l (r + 3)
         = pending cq l r @ [A, M, B]"
proof -
  let ?c1 = "cq[nat (r + 1) := A]"
  let ?c2 = "?c1[nat (r + 2) := M]"
  let ?c3 = "?c2[nat (r + 3) := B]"
  have n: "nat (r + 1) \<noteq> nat (r + 2)" "nat (r + 1) \<noteq> nat (r + 3)" "nat (r + 2) \<noteq> nat (r + 3)"
    "nat (r + 1) < length cq" "nat (r + 2) < length cq" "nat (r + 3) < length cq"
    using assms by auto
  have e: "r + 2 + 1 = r + 3" "r + 1 + 1 = r + 2" by simp_all
  have s3: "pending ?c3 l (r + 3) = pending ?c3 l (r + 2) @ [?c3 ! nat (r + 3)]"
    using pending_snoc [of l "r + 2" ?c3] assms unfolding e by simp
  have v3: "?c3 ! nat (r + 3) = B" using n by simp
  have u3: "pending ?c3 l (r + 2) = pending ?c2 l (r + 2)"
    by (rule pending_update_above) (use assms in auto)
  have s2: "pending ?c2 l (r + 2) = pending ?c2 l (r + 1) @ [?c2 ! nat (r + 2)]"
    using pending_snoc [of l "r + 1" ?c2] assms unfolding e by simp
  have v2: "?c2 ! nat (r + 2) = M" using n by simp
  have u2: "pending ?c2 l (r + 1) = pending ?c1 l (r + 1)"
    by (rule pending_update_above) (use assms in auto)
  have s1: "pending ?c1 l (r + 1) = pending ?c1 l r @ [?c1 ! nat (r + 1)]"
    by (rule pending_snoc) (use assms in auto)
  have v1: "?c1 ! nat (r + 1) = A" using n by simp
  have u1: "pending ?c1 l r = pending cq l r"
    by (rule pending_update_above) (use assms in auto)
  show ?thesis unfolding s3 v3 u3 s2 v2 u2 s1 v1 u1 by simp
qed

lemma task_ok_frame:
  assumes "task_ok srt tg tmpl askl (left, right, ql, qr)"
    "int (length srt) \<le> int (length tmpl)"
    "length tmpl' = length tmpl" "length askl' = length askl"
    "\<And>p. ql \<le> qr \<Longrightarrow> left \<le> p \<Longrightarrow> p \<le> right \<Longrightarrow> tmpl' ! nat p = tmpl ! nat p"
    "\<And>q. ql \<le> q \<Longrightarrow> q \<le> qr \<Longrightarrow> askl' ! nat q = askl ! nat q"
  shows "task_ok srt tg tmpl' askl' (left, right, ql, qr)"
proof (cases "ql \<le> qr")
  case False
  then show ?thesis by (simp add: task_ok_def)
next
  case True
  with assms(1) have b: "0 \<le> left" "left \<le> right" "right < int (length srt)"
    by (auto simp: task_ok_def)
  have "segment tmpl' left right = segment tmpl left right"
    by (rule segment_eqI) (use b assms(2,3) assms(5) [OF True] in auto)
  with assms(1,4,6) True show ?thesis by (auto simp: task_ok_def)
qed

lemma same_shape_refl: "same_shape s s"
  by (simp add: same_shape_def)

lemma same_shape_trans: "same_shape s s' \<Longrightarrow> same_shape s' s'' \<Longrightarrow> same_shape s s''"
  by (simp add: same_shape_def)

lemma same_shape_wf: "wf_counter s \<Longrightarrow> same_shape s s' \<Longrightarrow> wf_counter s'"
  by (simp add: same_shape_def wf_counter_def)

lemma pot_nonneg: "0 \<le> pot T"
  by (auto simp: pot_def split: prod.splits)

lemma sum_pot_nonneg: "0 \<le> sum_list (map pot ts)"
  by (rule sum_list_nonneg) (auto simp: pot_nonneg)

lemma loop_step:
  assumes srt: "sorted srt" "int (length srt) < 2 ^ 63"
    and mono: "\<forall>q q'. q \<le> q' \<longrightarrow> tg q \<le> tg q'"
    and inv: "loop_inv srt tg s l r" and lr: "l \<le> r"
  shows "\<exists>left right ql qr s' r'.
     rd (c_calc_queue s) l = Inr (left, right, ql, qr) \<and>
     select s left right ql qr r = Inr (s', r') \<and>
     loop_inv srt tg s' (l + 1) r' \<and> same_shape s s' \<and>
     (\<forall>q. 0 \<le> q \<and> q < int (length (c_ask s)) \<longrightarrow>
        c_ans s' ! nat q = c_ans s ! nat q \<or> c_ans s' ! nat q = srt ! nat (tg q))"
proof -
  define cq where "cq = c_calc_queue s"
  define rest where "rest = pending cq (l + 1) r"
  obtain left right ql qr where T: "cq ! nat l = (left, right, ql, qr)"
    by (cases "cq ! nat l") auto
  define T0 where "T0 = (left, right, ql, qr)"
  have pd: "pending cq l r = T0 # rest"
    using lr by (simp add: pending_Cons rest_def T T0_def)
  from inv have len: "int (length srt) \<le> int (length (c_tmp s))"
    "length (c_mid_temp s) = length (c_tmp s)" "length (c_ans s) = length (c_ask s)"
    and lb: "1 \<le> l"
    and sm: "r + 3 * (pot T0 + sum_list (map pot rest)) + 2 \<le> 3 * int (length srt)"
    and cap: "3 * int (length srt) \<le> int (length cq)"
    and okT: "task_ok srt tg (c_tmp s) (c_ask s) T0"
    and okR: "\<And>T'. T' \<in> set rest \<Longrightarrow> task_ok srt tg (c_tmp s) (c_ask s) T'"
    and apT: "\<And>T'. T' \<in> set rest \<Longrightarrow> apart T0 T'"
    and apR: "sorted_wrt apart rest"
    and an: "\<And>q. 0 \<le> q \<Longrightarrow> q < int (length (c_ask s)) \<Longrightarrow>
        covers T0 q \<or> (\<exists>T \<in> set rest. covers T q) \<or> c_ans s ! nat q = srt ! nat (tg q)"
    unfolding loop_inv_def cq_def [symmetric] pd by auto
  have sr: "0 \<le> sum_list (map pot rest)" by (rule sum_pot_nonneg)
  have p0: "0 \<le> pot T0" by (rule pot_nonneg)
  from sm sr p0 cap lr lb have lq: "0 \<le> l" "l < int (length cq)" by auto
  then have rd: "rd (c_calc_queue s) l = Inr (left, right, ql, qr)"
    by (simp add: rd_ok cq_def [symmetric] T)
  consider (empty) "qr < ql" | (single) "ql \<le> qr" "left = right"
    | (split) "ql \<le> qr" "left \<noteq> right" by linarith
  then show ?thesis
  proof cases
    case empty
    then have e: "select s left right ql qr r = Inr (s, r)" by (simp add: select_def)
    from empty have nc: "\<not> covers T0 q" for q by (simp add: covers_def T0_def)
    have "loop_inv srt tg s (l + 1) r"
      unfolding loop_inv_def cq_def [symmetric] rest_def [symmetric]
      using len lb lr sm p0 cap okR apR an nc by auto
    with rd e same_shape_refl [of s] show ?thesis by blast
  next
    case single
    have "\<exists>a'. select s left left ql qr r = Inr (s\<lparr>c_ans := a'\<rparr>, r) \<and>
       length a' = length (c_ans s) \<and>
       (\<forall>q. ql \<le> q \<and> q \<le> qr \<longrightarrow> a' ! nat q = srt ! nat (tg q)) \<and>
       (\<forall>q. 0 \<le> q \<and> (q < ql \<or> qr < q) \<longrightarrow> a' ! nat q = c_ans s ! nat q)"
      by (rule select_single_spec) (use len okT single in \<open>auto simp: T0_def\<close>)
    then obtain a' where e: "select s left right ql qr r = Inr (s\<lparr>c_ans := a'\<rparr>, r)"
      and la: "length a' = length (c_ans s)"
      and v: "\<And>q. ql \<le> q \<Longrightarrow> q \<le> qr \<Longrightarrow> a' ! nat q = srt ! nat (tg q)"
      and f: "\<And>q. 0 \<le> q \<Longrightarrow> q < ql \<or> qr < q \<Longrightarrow> a' ! nat q = c_ans s ! nat q"
      using single by blast
    have an': "(\<exists>T \<in> set rest. covers T q) \<or> a' ! nat q = srt ! nat (tg q)"
      if "0 \<le> q" "q < int (length (c_ask s))" for q
    proof (cases "covers T0 q")
      case True
      then show ?thesis using v [of q] by (simp add: covers_def T0_def)
    next
      case False
      with an [OF that] f [of q] that show ?thesis
        by (auto simp: covers_def T0_def)
    qed
    have "loop_inv srt tg (s\<lparr>c_ans := a'\<rparr>) (l + 1) r"
      unfolding loop_inv_def
      using len lb lr sm p0 cap okR apR an' la
      by (simp add: cq_def [symmetric] rest_def [symmetric])
    moreover have "same_shape s (s\<lparr>c_ans := a'\<rparr>)" using la by (simp add: same_shape_def)
    moreover have "\<forall>q. 0 \<le> q \<and> q < int (length (c_ask s)) \<longrightarrow>
        c_ans (s\<lparr>c_ans := a'\<rparr>) ! nat q = c_ans s ! nat q \<or>
        c_ans (s\<lparr>c_ans := a'\<rparr>) ! nat q = srt ! nat (tg q)"
    proof (intro allI impI)
      fix q assume "0 \<le> q \<and> q < int (length (c_ask s))"
      then show "c_ans (s\<lparr>c_ans := a'\<rparr>) ! nat q = c_ans s ! nat q \<or>
        c_ans (s\<lparr>c_ans := a'\<rparr>) ! nat q = srt ! nat (tg q)"
        using v [of q] f [of q] by (cases "ql \<le> q \<and> q \<le> qr") auto
    qed
    ultimately show ?thesis using rd e by blast
  next
    case split
    from okT split have tb: "0 \<le> left" "left \<le> right" "right < int (length srt)" "0 \<le> ql"
      "qr < int (length (c_ask s))"
      and tgT: "\<And>q. ql \<le> q \<Longrightarrow> q \<le> qr \<Longrightarrow> left \<le> tg q \<and> tg q \<le> right"
      by (auto simp: task_ok_def T0_def)
    from split tb have pT: "pot T0 = right - left" "1 \<le> right - left"
      by (auto simp: pot_def T0_def)
    from sm sr pT cap lr lb have rb: "0 \<le> r" "r + 3 < int (length cq)" by auto
    have "\<exists>t m1 a2 index i j.
     select s left right ql qr r =
       Inr (s\<lparr>c_tmp := t, c_mid_temp := m1, c_ask := a2,
              c_calc_queue := (c_calc_queue s)
                [nat (r + 1) := (left, index - 1, ql, i - 1),
                 nat (r + 2) := (index, index, i, j - 1),
                 nat (r + 3) := (index + 1, right, j, qr)]\<rparr>, r + 3) \<and>
     length t = length (c_tmp s) \<and> length m1 = length (c_mid_temp s) \<and>
     length a2 = length (c_ask s) \<and>
     left \<le> index \<and> index \<le> right \<and> ql \<le> i \<and> i \<le> j \<and> j \<le> qr + 1 \<and>
     (\<forall>p. 0 \<le> p \<and> (p < left \<or> right < p) \<longrightarrow> t ! nat p = c_tmp s ! nat p) \<and>
     (\<forall>q. 0 \<le> q \<and> (q < ql \<or> qr < q) \<longrightarrow> a2 ! nat q = c_ask s ! nat q) \<and>
     task_ok srt tg t a2 (left, index - 1, ql, i - 1) \<and>
     task_ok srt tg t a2 (index, index, i, j - 1) \<and>
     task_ok srt tg t a2 (index + 1, right, j, qr)"
      by (rule select_split_spec [OF srt(1) len(1) srt(2) len(2) _ _ mono _ split])
        (use rb okT in \<open>auto simp: cq_def T0_def\<close>)
    then obtain t m1 a2 index i j where
      e: "select s left right ql qr r =
       Inr (s\<lparr>c_tmp := t, c_mid_temp := m1, c_ask := a2,
              c_calc_queue := cq
                [nat (r + 1) := (left, index - 1, ql, i - 1),
                 nat (r + 2) := (index, index, i, j - 1),
                 nat (r + 3) := (index + 1, right, j, qr)]\<rparr>, r + 3)"
      and l': "length t = length (c_tmp s)" "length m1 = length (c_mid_temp s)"
        "length a2 = length (c_ask s)"
      and ib: "left \<le> index" "index \<le> right" and qb: "ql \<le> i" "i \<le> j" "j \<le> qr + 1"
      and ft: "\<And>p. 0 \<le> p \<Longrightarrow> p < left \<or> right < p \<Longrightarrow> t ! nat p = c_tmp s ! nat p"
      and fa: "\<And>q. 0 \<le> q \<Longrightarrow> q < ql \<or> qr < q \<Longrightarrow> a2 ! nat q = c_ask s ! nat q"
      and okA: "task_ok srt tg t a2 (left, index - 1, ql, i - 1)"
      and okM: "task_ok srt tg t a2 (index, index, i, j - 1)"
      and okB: "task_ok srt tg t a2 (index + 1, right, j, qr)"
      unfolding cq_def by blast
    define A where "A = (left, index - 1, ql, i - 1)"
    define M where "M = (index, index, i, j - 1)"
    define B where "B = (index + 1, right, j, qr)"
    define s' where "s' = s\<lparr>c_tmp := t, c_mid_temp := m1, c_ask := a2,
              c_calc_queue := cq[nat (r + 1) := A, nat (r + 2) := M, nat (r + 3) := B]\<rparr>"
    have pd': "pending (c_calc_queue s') (l + 1) (r + 3) = rest @ [A, M, B]"
      unfolding s'_def rest_def using pending_push [of "l + 1" r cq A M B] lb lr rb by simp
    have potABM: "pot A + pot M + pot B \<le> pot T0 - 1"
      using ib pT by (auto simp: pot_def A_def M_def B_def)
    have sum': "r + 3 + 3 * sum_list (map pot (rest @ [A, M, B])) + 2 \<le> 3 * int (length srt)"
      using sm potABM by simp
    have okR': "task_ok srt tg t a2 T'" if T': "T' \<in> set rest" for T'
    proof -
      obtain l2 r2 ql2 qr2 where T'e: "T' = (l2, r2, ql2, qr2)" by (cases T') auto
      have ok2: "task_ok srt tg (c_tmp s) (c_ask s) (l2, r2, ql2, qr2)"
        using okR [OF T'] by (simp add: T'e)
      show ?thesis unfolding T'e
      proof (rule task_ok_frame [OF ok2 len(1) l'(1) l'(3)])
        fix p assume h: "ql2 \<le> qr2" "l2 \<le> p" "p \<le> r2"
        from apT [OF T'] h(1) split(1) have "right < l2 \<or> r2 < left"
          by (simp add: apart_def T0_def T'e)
        moreover from ok2 h(1) have "0 \<le> l2" by (simp add: task_ok_def)
        ultimately show "t ! nat p = c_tmp s ! nat p" using h by (intro ft) auto
      next
        fix q assume h: "ql2 \<le> q" "q \<le> qr2"
        then have q2: "ql2 \<le> qr2" by simp
        from apT [OF T'] q2 split(1) have d: "right < l2 \<or> r2 < left"
          by (simp add: apart_def T0_def T'e)
        from ok2 q2 h have t2: "l2 \<le> tg q" "tg q \<le> r2" "0 \<le> ql2" by (auto simp: task_ok_def)
        have "q < ql \<or> qr < q"
        proof (rule ccontr)
          assume "\<not> (q < ql \<or> qr < q)"
          then have "left \<le> tg q \<and> tg q \<le> right" by (intro tgT) auto
          with d t2 show False by auto
        qed
        with t2 h show "a2 ! nat q = c_ask s ! nat q" by (intro fa) auto
      qed
    qed
    have ok': "\<forall>T \<in> set (rest @ [A, M, B]). task_ok srt tg t a2 T"
      using okR' okA okM okB by (auto simp: A_def M_def B_def)
    have apN: "apart T' A \<and> apart T' M \<and> apart T' B" if "T' \<in> set rest" for T'
      using apT [OF that] split(1) ib
      by (auto simp: apart_def T0_def A_def M_def B_def split: prod.splits)
    have ap': "sorted_wrt apart (rest @ [A, M, B])"
      using apR apN by (auto simp: sorted_wrt_append apart_def A_def M_def B_def)
    have an': "(\<exists>T \<in> set (rest @ [A, M, B]). covers T q) \<or> c_ans s ! nat q = srt ! nat (tg q)"
      if "0 \<le> q" "q < int (length (c_ask s))" for q
    proof (cases "covers T0 q")
      case True
      then have "covers A q \<or> covers M q \<or> covers B q"
        by (auto simp: covers_def T0_def A_def M_def B_def)
      then show ?thesis by auto
    next
      case False
      with an [OF that] show ?thesis by auto
    qed
    have "loop_inv srt tg s' (l + 1) (r + 3)"
      unfolding loop_inv_def pd'
      using len l' lb lr sum' cap ok' ap' an'
      by (simp add: s'_def)
    moreover have "select s left right ql qr r = Inr (s', r + 3)"
      using e by (simp add: s'_def A_def M_def B_def)
    moreover have "same_shape s s'" using l' by (simp add: s'_def same_shape_def cq_def)
    moreover have "c_ans s' = c_ans s" by (simp add: s'_def)
    ultimately show ?thesis using rd by auto
  qed
qed

lemma calc_loop_spec:
  assumes "sorted srt" "int (length srt) < 2 ^ 63" "\<forall>q q'. q \<le> q' \<longrightarrow> tg q \<le> tg q'"
    "loop_inv srt tg s l r"
  shows "\<exists>s' r'. calc_loop s l r = Inr (s', r') \<and> r' + 2 \<le> 3 * int (length srt) \<and>
      (\<forall>q. 0 \<le> q \<and> q < int (length (c_ask s)) \<longrightarrow> c_ans s' ! nat q = srt ! nat (tg q)) \<and>
      same_shape s s'"
  using assms
proof (induction s l r rule: calc_loop.induct)
  case (1 s l r)
  note p = "1.prems"
  show ?case
  proof (cases "l \<le> r")
    case False
    then have pn: "pending (c_calc_queue s) l r = []" by (simp add: pending_Nil)
    from p(4) have "r + 2 \<le> 3 * int (length srt)"
      and "\<forall>q. 0 \<le> q \<and> q < int (length (c_ask s)) \<longrightarrow> c_ans s ! nat q = srt ! nat (tg q)"
      unfolding loop_inv_def pn by auto
    with False same_shape_refl [of s] show ?thesis by (subst calc_loop.simps) simp
  next
    case True
    from loop_step [OF p(1,2,3,4) True] obtain left right ql qr s' r' where
      rd: "rd (c_calc_queue s) l = Inr (left, right, ql, qr)"
      and sel: "select s left right ql qr r = Inr (s', r')"
      and inv': "loop_inv srt tg s' (l + 1) r'"
      and same: "same_shape s s'"
      by blast
    have "\<exists>s'' r''. calc_loop s' (l + 1) r' = Inr (s'', r'') \<and>
      r'' + 2 \<le> 3 * int (length srt) \<and>
      (\<forall>q. 0 \<le> q \<and> q < int (length (c_ask s')) \<longrightarrow> c_ans s'' ! nat q = srt ! nat (tg q)) \<and>
      same_shape s' s''"
      by (rule "1.IH" [OF True rd refl refl refl sel refl p(1,2,3) inv'])
    then obtain s'' r'' where e': "calc_loop s' (l + 1) r' = Inr (s'', r'')"
      and r: "r'' + 2 \<le> 3 * int (length srt)"
        "\<forall>q. 0 \<le> q \<and> q < int (length (c_ask s')) \<longrightarrow> c_ans s'' ! nat q = srt ! nat (tg q)"
        "same_shape s' s''"
      by blast
    have "calc_loop s l r = Inr (s'', r'')"
      using True rd sel e' by (subst calc_loop.simps) simp
    moreover from same have "length (c_ask s') = length (c_ask s)" by (simp add: same_shape_def)
    ultimately show ?thesis using r same_shape_trans [OF same r(3)] by simp
  qed
qed

lemma calc_copy_spec:
  assumes "0 \<le> i" "n \<le> int (length q)" "n \<le> int (length t)"
  shows "\<exists>t'. calc_copy q t i n = Inr t' \<and> length t' = length t \<and>
           (\<forall>p. 0 \<le> p \<and> p < i \<longrightarrow> t' ! nat p = t ! nat p) \<and>
           (\<forall>p. i \<le> p \<and> p < n \<longrightarrow> t' ! nat p = q ! nat p)"
  using assms
proof (induction q t i n rule: calc_copy.induct)
  case (1 q t i n)
  show ?case
  proof (cases "i < n")
    case False
    then show ?thesis by (subst calc_copy.simps) auto
  next
    case True
    define t1 where "t1 = t[nat i := q ! nat i]"
    from True "1.prems" have r: "rd q i = Inr (q ! nat i)" by (simp add: rd_ok)
    from True "1.prems" have w: "wr t i (q ! nat i) = Inr t1" by (simp add: wr_ok t1_def)
    have "\<exists>t'. calc_copy q t1 (i + 1) n = Inr t' \<and> length t' = length t1 \<and>
           (\<forall>p. 0 \<le> p \<and> p < i + 1 \<longrightarrow> t' ! nat p = t1 ! nat p) \<and>
           (\<forall>p. i + 1 \<le> p \<and> p < n \<longrightarrow> t' ! nat p = q ! nat p)"
      by (rule "1.IH" [OF True r w]) (use "1.prems" in \<open>auto simp: t1_def\<close>)
    then obtain t' where e': "calc_copy q t1 (i + 1) n = Inr t'"
      and l': "length t' = length t1"
      and u: "\<And>p. 0 \<le> p \<Longrightarrow> p < i + 1 \<Longrightarrow> t' ! nat p = t1 ! nat p"
      and v: "\<And>p. i + 1 \<le> p \<Longrightarrow> p < n \<Longrightarrow> t' ! nat p = q ! nat p"
      by auto
    have e: "calc_copy q t i n = Inr t'"
      using True r w e' by (subst calc_copy.simps) simp
    have at1: "t1 ! nat p = (if p = i then q ! nat i else t ! nat p)" if "0 \<le> p" for p
      using that "1.prems" True unfolding t1_def by (simp add: nth_upd_int)
    have a: "t' ! nat p = t ! nat p" if "0 \<le> p" "p < i" for p
      using that u [of p] by (simp add: at1)
    have b: "t' ! nat p = q ! nat p" if "i \<le> p" "p < n" for p
    proof (cases "p = i")
      case True
      with "1.prems" u [of p] show ?thesis by (simp add: at1)
    next
      case False
      with that v [of p] show ?thesis by simp
    qed
    from e l' a b show ?thesis by (auto simp: t1_def)
  qed
qed

lemma scaled_div: "0 \<le> n \<Longrightarrow> 0 < b \<Longrightarrow> 0 \<le> a \<Longrightarrow> scaled n a b = (n * a) div b"
  by (simp add: scaled_def sdiv_nonneg)

lemma frac_le:
  assumes "0 \<le> n" "0 < c" "a * c \<le> a'" "b' = b * c" "0 < b"
  shows "(n * a) div b \<le> (n * a') div (b' :: int)"
proof -
  have "(n * a) div b = (c * (n * a)) div (c * b)" using assms(2) by simp
  also have "\<dots> \<le> (n * a') div (c * b)"
  proof (rule zdiv_mono1)
    have "n * (a * c) \<le> n * a'" using assms(3,1) by (rule mult_left_mono)
    then show "c * (n * a) \<le> n * a'" by (simp add: mult_ac)
    show "0 < c * b" using assms by simp
  qed
  finally show ?thesis using assms(4) by (simp add: mult.commute)
qed

lemma frac_lt:
  assumes "1 \<le> n" "a < b" "0 < b"
  shows "(n * a) div b < (n :: int)"
proof (rule ccontr)
  assume "\<not> (n * a) div b < n"
  then have "n \<le> (n * a) div b" by simp
  then have "n * b \<le> (n * a) div b * b" using assms(3) by (intro mult_right_mono) simp_all
  also have "\<dots> \<le> (n * a) div b * b + (n * a) mod b"
    using pos_mod_sign [OF assms(3), of "n * a"] by linarith
  also have "\<dots> = n * a" by (rule div_mult_mod_eq)
  finally have "n * b \<le> n * a" .
  with assms(1,2) show False by simp
qed
lemma scaled_nonneg: "0 \<le> n \<Longrightarrow> 0 \<le> a \<Longrightarrow> 0 < b \<Longrightarrow> 0 \<le> scaled n a b"
  by (simp add: scaled_div pos_imp_zdiv_nonneg_iff)

lemma scaled_lt: "1 \<le> n \<Longrightarrow> 0 \<le> a \<Longrightarrow> a < b \<Longrightarrow> scaled n a b < n"
  using frac_lt [of n a b] by (simp add: scaled_div)

lemma scaled_le:
  "0 \<le> n \<Longrightarrow> 0 < c \<Longrightarrow> 0 \<le> a \<Longrightarrow> a * c \<le> a' \<Longrightarrow> b' = b * c \<Longrightarrow> 0 < b \<Longrightarrow>
   scaled n a b \<le> scaled n a' b'"
  using frac_le [of n c a a' b' b] by (simp add: scaled_div order.trans [of 0 "a * c" a'])

lemma target_bounds:
  assumes "1 \<le> n"
  shows "0 \<le> target n q" "target n q < n"
proof -
  have n0: "0 \<le> n" using assms by simp
  have a: "0 \<le> scaled n 1 2" "0 \<le> scaled n 9 10" "0 \<le> scaled n 19 20"
    "0 \<le> scaled n 99 100" "0 \<le> scaled n 999 1000"
    by (rule scaled_nonneg [OF n0]; simp)+
  have b: "scaled n 1 2 < n" "scaled n 9 10 < n" "scaled n 19 20 < n"
    "scaled n 99 100 < n" "scaled n 999 1000 < n"
    by (rule scaled_lt [OF assms]; simp)+
  show "0 \<le> target n q" using a by (simp add: target_def)
  show "target n q < n" using b by (simp add: target_def)
qed

lemma target_mono:
  assumes "0 \<le> n"
  shows "\<forall>q q'. q \<le> q' \<longrightarrow> target n q \<le> target n q'"
proof (intro allI impI)
  fix q q' :: int assume qq: "q \<le> q'"
  have c1: "scaled n 1 2 \<le> scaled n 9 10"
    by (rule scaled_le [OF assms, where c = 5]) simp_all
  have c2: "scaled n 9 10 \<le> scaled n 19 20"
    by (rule scaled_le [OF assms, where c = 2]) simp_all
  have c3: "scaled n 19 20 \<le> scaled n 99 100"
    by (rule scaled_le [OF assms, where c = 5]) simp_all
  have c4: "scaled n 99 100 \<le> scaled n 999 1000"
    by (rule scaled_le [OF assms, where c = 10]) simp_all
  have t: "target n 0 \<le> target n 1" "target n 1 \<le> target n 2" "target n 2 \<le> target n 3"
    "target n 3 \<le> target n 4"
    using c1 c2 c3 c4 by (simp_all add: target_def)
  have lo: "target n k = target n 0" if "k \<le> 0" for k using that by (simp add: target_def)
  have hi: "target n k = target n 4" if "4 \<le> k" for k using that by (simp add: target_def)
  consider "q' \<le> 0" | "4 \<le> q" | "0 \<le> q \<and> q \<le> 4 \<and> 4 \<le> q'" | "q \<le> 0 \<and> 0 \<le> q' \<and> q' \<le> 4"
    | "q \<le> 0 \<and> 4 \<le> q'" | "0 \<le> q \<and> q' \<le> 4" using qq by linarith
  then show "target n q \<le> target n q'"
  proof cases
    case 1 with qq lo [of q] lo [of q'] show ?thesis by simp
  next
    case 2 with qq hi [of q] hi [of q'] show ?thesis by simp
  next
    case 3
    then have "q = 0 \<or> q = 1 \<or> q = 2 \<or> q = 3 \<or> q = 4" by linarith
    with 3 t hi [of q'] show ?thesis by auto
  next
    case 4
    then have "q' = 0 \<or> q' = 1 \<or> q' = 2 \<or> q' = 3 \<or> q' = 4" by linarith
    with 4 t lo [of q] show ?thesis by auto
  next
    case 5 with t lo [of q] hi [of q'] show ?thesis by simp
  next
    case 6
    with qq have "q = 0 \<or> q = 1 \<or> q = 2 \<or> q = 3 \<or> q = 4"
      "q' = 0 \<or> q' = 1 \<or> q' = 2 \<or> q' = 3 \<or> q' = 4" by linarith+
    with qq t show ?thesis by auto
  qed
qed

lemma calc_prepare_spec:
  assumes wf: "wf_counter s" and n: "1 \<le> sint (c_tail s)"
  defines "srt \<equiv> sort (take (nat (window s)) (c_queue s))"
  shows "\<exists>s1. calc_prepare s = Inr (s1, 1) \<and> loop_inv srt (target (window s)) s1 1 1 \<and>
     same_shape s s1 \<and> c_ans s1 = c_ans s"
proof -
  define m where "m = window s"
  from wf have len: "int (length (c_queue s)) = 50000" "int (length (c_tmp s)) = 50000"
    "int (length (c_mid_temp s)) = 50000" "int (length (c_ask s)) = 5"
    "int (length (c_ans s)) = 5" "int (length (c_calc_queue s)) = 500000"
    by (simp_all add: wf_counter_def MAX_QUEUE_LENGTH_def COUNTER_PERCENTILE_COUNT_def)
  from n have mb: "1 \<le> m" "m \<le> 50000"
    by (auto simp: m_def window_def MAX_QUEUE_LENGTH_def)
  have ls: "int (length srt) = m" using mb len by (simp add: srt_def m_def [symmetric])
  have "\<exists>t'. calc_copy (c_queue s) (c_tmp s) 0 m = Inr t' \<and> length t' = length (c_tmp s) \<and>
           (\<forall>p. 0 \<le> p \<and> p < 0 \<longrightarrow> t' ! nat p = c_tmp s ! nat p) \<and>
           (\<forall>p. 0 \<le> p \<and> p < m \<longrightarrow> t' ! nat p = c_queue s ! nat p)"
    by (rule calc_copy_spec) (use mb len in auto)
  then obtain t where cp: "calc_copy (c_queue s) (c_tmp s) 0 m = Inr t"
    and lt: "length t = length (c_tmp s)"
    and tv: "\<And>p. 0 \<le> p \<Longrightarrow> p < m \<Longrightarrow> t ! nat p = c_queue s ! nat p" by blast
  define a4 where "a4 = (c_ask s)
     [0 := word_of_int (scaled m 1 2 + 1), 1 := word_of_int (scaled m 9 10 + 1),
      2 := word_of_int (scaled m 19 20 + 1), 3 := word_of_int (scaled m 99 100 + 1),
      4 := word_of_int (scaled m 999 1000 + 1)]"
  define T where "T = (0 :: int, m - 1, 0 :: int, 4 :: int)"
  define cq where "cq = (c_calc_queue s)[1 := T]"
  define s1 where "s1 = s\<lparr>c_tmp := t, c_ask := a4, c_calc_queue := cq\<rparr>"
  have la: "length (c_ask s) = 5" using len by simp
  have e: "calc_prepare s = Inr (s1, 1)"
    unfolding calc_prepare_def window_def [symmetric] m_def [symmetric] Let_def
    using cp len
    by (simp add: wr_ok insert_calc_queue_def Let_def COUNTER_PERCENTILE_50_def
        COUNTER_PERCENTILE_90_def COUNTER_PERCENTILE_95_def COUNTER_PERCENTILE_99_def
        COUNTER_PERCENTILE_999_def COUNTER_PERCENTILE_COUNT_def s1_def a4_def cq_def T_def)
  have pd: "pending cq 1 1 = [T]"
    using len by (simp add: pending_def cq_def)
  have av: "a4 ! nat q = word_of_int (target m q - 0 + 1)" if "0 \<le> q" "q \<le> 4" for q
  proof -
    from that consider "q = 0" | "q = 1" | "q = 2" | "q = 3" | "q = 4" by linarith
    then show ?thesis
      by cases (simp_all add: a4_def la target_def)
  qed
  have "segment t 0 (m - 1) = segment (c_queue s) 0 (m - 1)"
    by (rule segment_eqI) (use tv mb len lt in auto)
  also have "\<dots> = take (nat m) (c_queue s)" by (simp add: segment_def)
  finally have st: "mset (segment t 0 (m - 1)) = mset srt"
    by (simp add: srt_def m_def [symmetric])
  have "segment srt 0 (int (length srt) - 1) = srt" by (rule segment_whole)
  then have ss: "segment srt 0 (m - 1) = srt" by (simp add: ls)
  have la4: "length a4 = 5" by (simp add: a4_def la)
  have tb: "0 \<le> target m q \<and> target m q \<le> m - 1" for q
    using target_bounds [OF mb(1), of q] by simp
  have ok: "task_ok srt (target m) t a4 T"
    unfolding task_ok_def T_def prod.case
    using mb ls st ss av tb la4 by simp
  have cov: "covers T q" if "0 \<le> q" "q < 5" for q
    using that by (simp add: covers_def T_def)
  have f: "c_tmp s1 = t" "c_mid_temp s1 = c_mid_temp s" "c_ask s1 = a4" "c_ans s1 = c_ans s"
    "c_calc_queue s1 = cq" "c_tail s1 = c_tail s" "c_queue s1 = c_queue s"
    by (simp_all add: s1_def)
  have lcq: "length cq = 500000" using len by (simp add: cq_def)
  have pt: "pot T = m - 1" using mb by (simp add: pot_def T_def)
  have "loop_inv srt (target m) s1 1 1"
    unfolding loop_inv_def f pd
    using ls mb len lt ok cov la4 lcq pt by simp
  moreover have "same_shape s s1"
    unfolding same_shape_def f using lt la4 la lcq len by simp
  ultimately show ?thesis using e f by (simp add: m_def)
qed

lemma calc_run_spec:
  assumes wf: "wf_counter s" and n: "1 \<le> sint (c_tail s)"
  shows "\<exists>s1 s' r'. calc_prepare s = Inr (s1, 1) \<and> calc_loop s1 1 1 = Inr (s', r') \<and>
     calc s = Inr s' \<and> r' + 2 \<le> 3 * window s \<and>
     (\<forall>q. 0 \<le> q \<and> q < COUNTER_PERCENTILE_COUNT \<longrightarrow>
        c_ans s' ! nat q = sort (take (nat (window s)) (c_queue s)) ! nat (target (window s) q)) \<and>
     same_shape s s'"
proof -
  define srt where "srt = sort (take (nat (window s)) (c_queue s))"
  from n have mb: "1 \<le> window s" "window s \<le> 50000"
    by (auto simp: window_def MAX_QUEUE_LENGTH_def)
  from wf have "int (length (c_queue s)) = 50000"
    by (simp add: wf_counter_def MAX_QUEUE_LENGTH_def)
  with mb have ls: "int (length srt) = window s" by (simp add: srt_def)
  from calc_prepare_spec [OF wf n] obtain s1 where
    pr: "calc_prepare s = Inr (s1, 1)" and inv: "loop_inv srt (target (window s)) s1 1 1"
    and same: "same_shape s s1"
    unfolding srt_def by blast
  from wf same have la: "int (length (c_ask s1)) = COUNTER_PERCENTILE_COUNT"
    by (simp add: wf_counter_def same_shape_def)
  have "\<exists>s' r'. calc_loop s1 1 1 = Inr (s', r') \<and> r' + 2 \<le> 3 * int (length srt) \<and>
      (\<forall>q. 0 \<le> q \<and> q < int (length (c_ask s1)) \<longrightarrow>
         c_ans s' ! nat q = srt ! nat (target (window s) q)) \<and>
      same_shape s1 s'"
  proof (rule calc_loop_spec)
    show "sorted srt" by (simp add: srt_def)
    show "int (length srt) < 2 ^ 63" using ls mb by simp
    show "\<forall>q q'. q \<le> q' \<longrightarrow> target (window s) q \<le> target (window s) q'"
      by (rule target_mono) (use mb in simp)
    show "loop_inv srt (target (window s)) s1 1 1" by (rule inv)
  qed
  then obtain s' r' where lp: "calc_loop s1 1 1 = Inr (s', r')"
    and r: "r' + 2 \<le> 3 * int (length srt)"
    and a: "\<forall>q. 0 \<le> q \<and> q < int (length (c_ask s1)) \<longrightarrow>
         c_ans s' ! nat q = srt ! nat (target (window s) q)"
    and same': "same_shape s1 s'" by blast
  from n have "c_tail s \<noteq> 0" by auto
  with pr lp have "calc s = Inr s'" by (simp add: calc_def)
  with pr lp r a same_shape_trans [OF same same'] la ls show ?thesis
    unfolding srt_def by simp
qed

subsection \<open>Recording samples\<close>

lemma sint_of_nat32:
  assumes "n < 2 ^ 31"
  shows "sint (of_nat n :: 32 word) = int n"
proof -
  have "sint (of_nat n :: 32 word) = signed_take_bit 31 (int n)"
    by (simp add: signed_of_nat)
  also have "\<dots> = int n"
    by (rule signed_take_bit_int_eq_self) (use assms in simp_all)
  finally show ?thesis .
qed

lemma smod_nonneg: "0 \<le> a \<Longrightarrow> 0 < b \<Longrightarrow> a smod b = a mod (b :: int)"
  by (cases "a = 0") (simp_all add: signed_modulo_int_def)

lemma percentile_set_ok:
  assumes "wf_counter s" "c_tail s = of_nat n" "n < 2 ^ 31"
  shows "percentile_set s v =
     Inr (s\<lparr>c_tail := of_nat (Suc n), c_queue := (c_queue s)[n mod 50000 := v]\<rparr>)"
proof -
  have l: "int (length (c_queue s)) = 50000"
    using assms(1) by (simp add: wf_counter_def MAX_QUEUE_LENGTH_def)
  have i: "sint (c_tail s) = int n" using assms(2,3) by (simp add: sint_of_nat32)
  have m: "int n smod MAX_QUEUE_LENGTH = int (n mod 50000)"
    by (simp add: smod_nonneg MAX_QUEUE_LENGTH_def zmod_int)
  have b: "n mod 50000 < 50000" by simp
  show ?thesis
    unfolding percentile_set_def Let_def i m
    using l b assms(2) by (simp add: wr_ok add.commute)
qed

lemma record_all_append:
  "record_all s (xs @ ys) = ebind (record_all s xs) (\<lambda>s'. record_all s' ys)"
  by (induction xs arbitrary: s) (auto split: sum.splits)

lemma wf_counter_update:
  "wf_counter s \<Longrightarrow> length q = length (c_queue s) \<Longrightarrow>
   wf_counter (s\<lparr>c_tail := t, c_queue := q\<rparr>)"
  by (simp add: wf_counter_def)

lemma record_all_spec:
  assumes "wf_counter s" "c_tail s = 0" "length xs < 2 ^ 31"
  shows "\<exists>Q. record_all s xs = Inr (s\<lparr>c_tail := of_nat (length xs), c_queue := Q\<rparr>) \<and>
     length Q = length (c_queue s) \<and>
     (\<forall>i. i < length xs \<and> length xs \<le> i + 50000 \<longrightarrow> Q ! (i mod 50000) = xs ! i)"
  using assms(3)
proof (induction xs rule: rev_induct)
  case Nil
  have "s\<lparr>c_tail := 0, c_queue := c_queue s\<rparr> = s" using assms(2) by simp
  then show ?case by (intro exI [of _ "c_queue s"]) simp
next
  case (snoc v xs)
  define n where "n = length xs"
  from snoc.prems have nb: "n < 2 ^ 31" by (simp add: n_def)
  with snoc.IH obtain Q where
    r: "record_all s xs = Inr (s\<lparr>c_tail := of_nat n, c_queue := Q\<rparr>)"
    and lq: "length Q = length (c_queue s)"
    and qv: "\<And>i. i < n \<Longrightarrow> n \<le> i + 50000 \<Longrightarrow> Q ! (i mod 50000) = xs ! i"
    unfolding n_def by auto
  define s1 where "s1 = s\<lparr>c_tail := of_nat n, c_queue := Q\<rparr>"
  have wf1: "wf_counter s1" unfolding s1_def using assms(1) lq by (rule wf_counter_update)
  have l: "length Q = 50000"
    using assms(1) lq by (simp add: wf_counter_def MAX_QUEUE_LENGTH_def)
  define Q' where "Q' = Q[n mod 50000 := v]"
  have "percentile_set s1 v = Inr (s1\<lparr>c_tail := of_nat (Suc n), c_queue := (c_queue s1)[n mod 50000 := v]\<rparr>)"
    by (rule percentile_set_ok [OF wf1 _ nb]) (simp add: s1_def)
  then have st: "percentile_set s1 v = Inr (s\<lparr>c_tail := of_nat (Suc n), c_queue := Q'\<rparr>)"
    by (simp add: s1_def Q'_def)
  have e: "record_all s (xs @ [v]) = Inr (s\<lparr>c_tail := of_nat (length (xs @ [v])), c_queue := Q'\<rparr>)"
    unfolding record_all_append r using st by (simp add: s1_def n_def)
  have v': "Q' ! (i mod 50000) = (xs @ [v]) ! i"
    if "i < length (xs @ [v])" "length (xs @ [v]) \<le> i + 50000" for i
  proof (cases "i = n")
    case True
    then show ?thesis using l by (simp add: Q'_def n_def)
  next
    case False
    with that have i: "i < n" "n \<le> i + 50000" "n < i + 50000" by (simp_all add: n_def)
    have ne: "n mod 50000 \<noteq> i mod 50000"
    proof
      assume "n mod 50000 = i mod 50000"
      then have "(n - i) mod 50000 = 0" using i(1)
        by (metis mod_eq_dvd_iff_nat less_imp_le_nat dvd_imp_mod_0)
      moreover have "0 < n - i" "n - i < 50000" using i by simp_all
      ultimately show False by simp
    qed
    then have "Q' ! (i mod 50000) = Q ! (i mod 50000)" by (simp add: Q'_def)
    also have "\<dots> = xs ! i" using i by (intro qv)
    also have "\<dots> = (xs @ [v]) ! i" using i(1) by (simp add: nth_append n_def)
    finally show ?thesis .
  qed
  from e v' lq show ?case by (intro exI [of _ Q']) (simp add: Q'_def)
qed

subsection \<open>The answers of \<^verbatim>\<open>calc\<close>\<close>

lemma floor_fraction:
  assumes "0 < b"
  shows "\<lfloor>real n * (real_of_int a / real_of_int b)\<rfloor> = (int n * a) div b"
proof -
  have "real n * (real_of_int a / real_of_int b) = real_of_int (int n * a) / real_of_int b"
    by simp
  then show ?thesis by (simp only: floor_divide_of_int_eq)
qed

lemma spec_rank_target:
  assumes "0 \<le> t" "t < COUNTER_PERCENTILE_COUNT"
  shows "int (spec_rank n t) = target (int n) t + 1"
proof -
  have f: "\<lfloor>real n * (real_of_int a / real_of_int b)\<rfloor> = scaled (int n) a b"
    if "0 \<le> a" "0 < b" for a b
    using that floor_fraction [of b n a] by (simp add: scaled_div)
  have p: "percentile 0 = real_of_int 1 / real_of_int 2"
    "percentile 1 = real_of_int 9 / real_of_int 10"
    "percentile 2 = real_of_int 19 / real_of_int 20"
    "percentile 3 = real_of_int 99 / real_of_int 100"
    "percentile 4 = real_of_int 999 / real_of_int 1000"
    by (simp_all add: percentile_def COUNTER_PERCENTILE_50_def COUNTER_PERCENTILE_90_def
        COUNTER_PERCENTILE_95_def COUNTER_PERCENTILE_99_def)
  have g: "0 \<le> scaled (int n) a b" if "0 \<le> a" "0 < b" for a b
    using that by (intro scaled_nonneg) simp_all
  have fl: "\<lfloor>real n * percentile 0\<rfloor> = scaled (int n) 1 2"
    "\<lfloor>real n * percentile 1\<rfloor> = scaled (int n) 9 10"
    "\<lfloor>real n * percentile 2\<rfloor> = scaled (int n) 19 20"
    "\<lfloor>real n * percentile 3\<rfloor> = scaled (int n) 99 100"
    "\<lfloor>real n * percentile 4\<rfloor> = scaled (int n) 999 1000"
    unfolding p by (rule f; simp)+
  have r: "int (nat x + 1) = x + 1" if "0 \<le> x" for x using that by simp
  from assms consider "t = 0" | "t = 1" | "t = 2" | "t = 3" | "t = 4"
    unfolding COUNTER_PERCENTILE_COUNT_def by linarith
  then show ?thesis
  proof cases
    case 1 show ?thesis unfolding spec_rank_def 1 fl
      using r [OF g [of 1 2]] by (simp add: target_def)
  next
    case 2 show ?thesis unfolding spec_rank_def 2 fl
      using r [OF g [of 9 10]] by (simp add: target_def)
  next
    case 3 show ?thesis unfolding spec_rank_def 3 fl
      using r [OF g [of 19 20]] by (simp add: target_def)
  next
    case 4 show ?thesis unfolding spec_rank_def 4 fl
      using r [OF g [of 99 100]] by (simp add: target_def)
  next
    case 5 show ?thesis unfolding spec_rank_def 5 fl
      using r [OF g [of 999 1000]] by (simp add: target_def)
  qed
qed

lemma recorded_counter:
  assumes "fresh_counter s" "length xs < 2 ^ 31"
  shows "\<exists>s1. record_all s xs = Inr s1 \<and> wf_counter s1 \<and> c_tail s1 = of_nat (length xs) \<and>
     sint (c_tail s1) = int (length xs) \<and> length (c_queue s1) = 50000 \<and>
     c_ans s1 = c_ans s \<and>
     (\<forall>i. i < length xs \<and> length xs \<le> i + 50000 \<longrightarrow> c_queue s1 ! (i mod 50000) = xs ! i)"
proof -
  from assms(1) have wf: "wf_counter s" and t0: "c_tail s = 0"
    by (simp_all add: fresh_counter_def)
  from record_all_spec [OF wf t0 assms(2)] obtain Q where
    r: "record_all s xs = Inr (s\<lparr>c_tail := of_nat (length xs), c_queue := Q\<rparr>)"
    and lq: "length Q = length (c_queue s)"
    and qv: "\<forall>i. i < length xs \<and> length xs \<le> i + 50000 \<longrightarrow> Q ! (i mod 50000) = xs ! i"
    by blast
  have "wf_counter (s\<lparr>c_tail := of_nat (length xs), c_queue := Q\<rparr>)"
    using wf lq by (rule wf_counter_update)
  moreover have "length Q = 50000"
    using wf lq by (simp add: wf_counter_def MAX_QUEUE_LENGTH_def)
  ultimately show ?thesis using r qv assms(2) by (simp add: sint_of_nat32)
qed

lemma to_double_exact:
  assumes "uint v \<le> 2 ^ 53"
  shows "to_double v = uint v"
proof (cases "uint v < 2 ^ 53")
  case True
  then have "round_shift (uint v) = 0" by (subst round_shift.simps) simp
  then show ?thesis by (simp add: to_double_def)
next
  case False
  with assms have e: "uint v = 2 ^ 53" by simp
  have "round_shift (2 ^ 53) = Suc 0"
    by (subst round_shift.simps, subst round_shift.simps) simp
  then show ?thesis by (simp add: to_double_def e)
qed

lemma get_percentile_answer:
  assumes "wf_counter s" "c_tail s \<noteq> 0" "0 \<le> t" "t < COUNTER_PERCENTILE_COUNT"
  shows "get_percentile s t = Inr (to_double (c_ans s ! nat t))"
  using assms by (simp add: get_percentile_def wf_counter_def rd_ok)

lemma calc_answers:
  assumes wf: "wf_counter s" and n: "1 \<le> sint (c_tail s)"
    and t: "0 \<le> t" "t < COUNTER_PERCENTILE_COUNT"
  shows "\<exists>s'. calc s = Inr s' \<and> wf_counter s' \<and> c_tail s' = c_tail s \<and>
     c_queue s' = c_queue s \<and>
     get_percentile s' t =
       Inr (to_double (sort (take (nat (window s)) (c_queue s)) ! nat (target (window s) t)))"
proof -
  from calc_run_spec [OF wf n] obtain s' where c: "calc s = Inr s'"
    and a: "\<forall>q. 0 \<le> q \<and> q < COUNTER_PERCENTILE_COUNT \<longrightarrow>
        c_ans s' ! nat q = sort (take (nat (window s)) (c_queue s)) ! nat (target (window s) q)"
    and sh: "same_shape s s'" by blast
  from wf sh have wf': "wf_counter s'" by (rule same_shape_wf)
  from sh have same: "c_tail s' = c_tail s" "c_queue s' = c_queue s"
    by (simp_all add: same_shape_def)
  from n have "c_tail s \<noteq> 0" by auto
  with same have "c_tail s' \<noteq> 0" by simp
  from get_percentile_answer [OF wf' this t] a t c wf' same show ?thesis by simp
qed

text \<open>
  More samples than the capacity, and fewer than \<open>2 ^ 31\<close>: the answers are those of the
  last 50000 samples.
\<close>

lemma mset_rotate_eq: "mset (rotate k xs) = mset xs"
proof -
  define m where "m = k mod length xs"
  have "mset (drop m xs @ take m xs) = mset (take m xs @ drop m xs)"
    by (simp only: mset_append add.commute)
  then show ?thesis by (simp add: rotate_drop_take m_def)
qed

lemma sort_rotate: "sort (rotate k xs) = sort xs"
  by (rule properties_for_sort) (simp_all add: mset_rotate_eq)

lemma calc_recent_window:
  assumes "fresh_counter s" "50000 \<le> length xs" "length xs < 2 ^ 31"
    "0 \<le> t" "t < COUNTER_PERCENTILE_COUNT"
  shows "\<exists>s1 s2. record_all s xs = Inr s1 \<and> calc s1 = Inr s2 \<and>
     get_percentile s2 t =
       Inr (to_double (sort (drop (length xs - 50000) xs) ! (spec_rank 50000 t - 1)))"
proof -
  define n where "n = length xs"
  define k where "k = n - 50000"
  from assms(2) have nk: "n = k + 50000" by (simp add: k_def n_def)
  from recorded_counter [OF assms(1,3)] obtain s1 where
    r: "record_all s xs = Inr s1" and wf1: "wf_counter s1"
    and sn: "sint (c_tail s1) = int n" and lq: "length (c_queue s1) = 50000"
    and qv: "\<And>i. i < n \<Longrightarrow> n \<le> i + 50000 \<Longrightarrow> c_queue s1 ! (i mod 50000) = xs ! i"
    unfolding n_def by blast
  have w: "window s1 = 50000"
    using sn nk by (simp add: window_def MAX_QUEUE_LENGTH_def)
  have rot: "drop k xs = rotate k (c_queue s1)"
  proof (rule nth_equalityI)
    show "length (drop k xs) = length (rotate k (c_queue s1))"
      using lq nk by (simp add: n_def)
    fix j assume "j < length (drop k xs)"
    then have j: "j < 50000" using nk by (simp add: n_def)
    have "rotate k (c_queue s1) ! j = c_queue s1 ! ((k + j) mod 50000)"
      using j lq by (simp add: nth_rotate)
    also have "\<dots> = xs ! (k + j)" using j nk by (intro qv) simp_all
    finally show "drop k xs ! j = rotate k (c_queue s1) ! j"
      using j nk by (simp add: n_def)
  qed
  have tk: "sort (take 50000 (c_queue s1)) = sort (drop k xs)"
    using lq by (simp add: rot sort_rotate)
  have n1: "1 \<le> sint (c_tail s1)" using sn nk by simp
  from calc_answers [OF wf1 n1 assms(4,5)] obtain s2 where
    c: "calc s1 = Inr s2"
    and g: "get_percentile s2 t =
       Inr (to_double (sort (take (nat (window s1)) (c_queue s1)) ! nat (target (window s1) t)))"
    by blast
  have "int (spec_rank 50000 t) = target (int 50000) t + 1"
    using assms(4,5) by (rule spec_rank_target)
  then have "spec_rank 50000 t - 1 = nat (target 50000 t)" by simp
  with r c g show ?thesis by (simp add: w tk k_def n_def)
qed

subsection \<open>The answers while \<^verbatim>\<open>calc\<close> runs\<close>

lemma calc_loop_unfold:
  "calc_loop s l r =
     (if l \<le> r then ebind (calc_step s l r) (\<lambda>(s', l', r'). calc_loop s' l' r')
      else Inr (s, r))"
  by (subst calc_loop.simps) (simp add: calc_step_def split: sum.splits prod.splits)

lemma calc_loop_steps:
  "calc_loop s l r = ebind (calc_steps n s l r) (\<lambda>(s', l', r'). calc_loop s' l' r')"
proof (induction n arbitrary: s l r)
  case 0
  show ?case by simp
next
  case (Suc n)
  show ?case
  proof (cases "l \<le> r")
    case False
    then show ?thesis by simp
  next
    case True
    show ?thesis
    proof (cases "calc_step s l r")
      case (Inl e)
      with True show ?thesis by (subst calc_loop_unfold) simp
    next
      case (Inr x)
      obtain s1 l1 r1 where x: "x = (s1, l1, r1)" by (cases x) auto
      have "calc_loop s l r = calc_loop s1 l1 r1"
        using True Inr x by (subst calc_loop_unfold) simp
      also have "\<dots> = ebind (calc_steps n s1 l1 r1) (\<lambda>(s', l', r'). calc_loop s' l' r')"
        by (rule Suc.IH)
      finally show ?thesis using True Inr x by simp
    qed
  qed
qed

lemma calc_steps_spec:
  assumes "sorted srt" "int (length srt) < 2 ^ 63" "\<forall>q q'. q \<le> q' \<longrightarrow> tg q \<le> tg q'"
    "loop_inv srt tg s l r"
  shows "\<exists>s' l' r'. calc_steps n s l r = Inr (s', l', r') \<and> loop_inv srt tg s' l' r' \<and>
     same_shape s s' \<and>
     (\<forall>q. 0 \<le> q \<and> q < int (length (c_ask s)) \<longrightarrow>
        c_ans s' ! nat q = c_ans s ! nat q \<or> c_ans s' ! nat q = srt ! nat (tg q))"
  using assms(4)
proof (induction n arbitrary: s l r)
  case 0
  then show ?case using same_shape_refl [of s] by simp
next
  case (Suc n)
  show ?case
  proof (cases "l \<le> r")
    case False
    with Suc.prems show ?thesis using same_shape_refl [of s] by simp
  next
    case True
    from loop_step [OF assms(1,2,3) Suc.prems True] obtain left right ql qr s1 r1 where
      rd: "rd (c_calc_queue s) l = Inr (left, right, ql, qr)"
      and sel: "select s left right ql qr r = Inr (s1, r1)"
      and inv1: "loop_inv srt tg s1 (l + 1) r1"
      and same1: "same_shape s s1"
      and ans1: "\<And>q. 0 \<le> q \<Longrightarrow> q < int (length (c_ask s)) \<Longrightarrow>
        c_ans s1 ! nat q = c_ans s ! nat q \<or> c_ans s1 ! nat q = srt ! nat (tg q)"
      by blast
    have st: "calc_step s l r = Inr (s1, l + 1, r1)"
      using rd sel by (simp add: calc_step_def)
    from Suc.IH [OF inv1] obtain s' l' r' where
      e: "calc_steps n s1 (l + 1) r1 = Inr (s', l', r')"
      and inv': "loop_inv srt tg s' l' r'"
      and same': "same_shape s1 s'"
      and ans': "\<And>q. 0 \<le> q \<Longrightarrow> q < int (length (c_ask s1)) \<Longrightarrow>
        c_ans s' ! nat q = c_ans s1 ! nat q \<or> c_ans s' ! nat q = srt ! nat (tg q)"
      by blast
    have c: "calc_steps (Suc n) s l r = Inr (s', l', r')"
      using True st e by simp
    from same1 have la: "length (c_ask s1) = length (c_ask s)" by (simp add: same_shape_def)
    have "c_ans s' ! nat q = c_ans s ! nat q \<or> c_ans s' ! nat q = srt ! nat (tg q)"
      if "0 \<le> q" "q < int (length (c_ask s))" for q
      using ans1 [OF that] ans' [of q] that la by auto
    with c inv' same_shape_trans [OF same1 same'] show ?thesis by blast
  qed
qed

lemma calc_in_flight_spec:
  assumes wf: "wf_counter s" and n: "1 \<le> sint (c_tail s)"
    and t: "0 \<le> t" "t < COUNTER_PERCENTILE_COUNT"
  shows "\<exists>sn. calc_in_flight k s = Inr sn \<and> wf_counter sn \<and> c_tail sn = c_tail s \<and>
     (c_ans sn ! nat t = c_ans s ! nat t \<or>
      c_ans sn ! nat t = sort (take (nat (window s)) (c_queue s)) ! nat (target (window s) t))"
proof -
  define srt where "srt = sort (take (nat (window s)) (c_queue s))"
  from n have mb: "1 \<le> window s" "window s \<le> 50000"
    by (auto simp: window_def MAX_QUEUE_LENGTH_def)
  from wf have "int (length (c_queue s)) = 50000"
    by (simp add: wf_counter_def MAX_QUEUE_LENGTH_def)
  with mb have ls: "int (length srt) = window s" by (simp add: srt_def)
  from calc_prepare_spec [OF wf n] obtain s1 where
    pr: "calc_prepare s = Inr (s1, 1)" and inv: "loop_inv srt (target (window s)) s1 1 1"
    and same: "same_shape s s1" and a1: "c_ans s1 = c_ans s"
    unfolding srt_def by blast
  from wf same have la: "int (length (c_ask s1)) = COUNTER_PERCENTILE_COUNT"
    by (simp add: wf_counter_def same_shape_def)
  have "\<exists>s' l' r'. calc_steps k s1 1 1 = Inr (s', l', r') \<and>
     loop_inv srt (target (window s)) s' l' r' \<and> same_shape s1 s' \<and>
     (\<forall>q. 0 \<le> q \<and> q < int (length (c_ask s1)) \<longrightarrow>
        c_ans s' ! nat q = c_ans s1 ! nat q \<or>
        c_ans s' ! nat q = srt ! nat (target (window s) q))"
  proof (rule calc_steps_spec)
    show "sorted srt" by (simp add: srt_def)
    show "int (length srt) < 2 ^ 63" using ls mb by simp
    show "\<forall>q q'. q \<le> q' \<longrightarrow> target (window s) q \<le> target (window s) q'"
      by (rule target_mono) (use mb in simp)
    show "loop_inv srt (target (window s)) s1 1 1" by (rule inv)
  qed
  then obtain sn ln rn where st: "calc_steps k s1 1 1 = Inr (sn, ln, rn)"
    and same': "same_shape s1 sn"
    and a: "\<forall>q. 0 \<le> q \<and> q < int (length (c_ask s1)) \<longrightarrow>
        c_ans sn ! nat q = c_ans s1 ! nat q \<or>
        c_ans sn ! nat q = srt ! nat (target (window s) q)"
    by blast
  from n have "c_tail s \<noteq> 0" by auto
  with pr st have e: "calc_in_flight k s = Inr sn" by (simp add: calc_in_flight_def)
  have sh: "same_shape s sn" by (rule same_shape_trans [OF same same'])
  from wf sh have wf': "wf_counter sn" by (rule same_shape_wf)
  from sh have tl: "c_tail sn = c_tail s" by (simp add: same_shape_def)
  from a t la have "c_ans sn ! nat t = c_ans s1 ! nat t \<or>
        c_ans sn ! nat t = srt ! nat (target (window s) t)" by simp
  with e wf' tl a1 show ?thesis unfolding srt_def by simp
qed

subsection \<open>A larger region does not change the partition step\<close>

lemma rd_in_widen:
  "fst w' \<le> fst w \<Longrightarrow> snd w \<le> snd w' \<Longrightarrow> rd_in w xs i = Inr v \<Longrightarrow> rd_in w' xs i = Inr v"
  by (auto simp: rd_in_def split: if_splits)

lemma wr_in_widen:
  "fst w' \<le> fst w \<Longrightarrow> snd w \<le> snd w' \<Longrightarrow> wr_in w xs i v = Inr ys \<Longrightarrow>
   wr_in w' xs i v = Inr ys"
  by (auto simp: wr_in_def split: if_splits)

lemma partition_move_widen:
  assumes "fst w' \<le> fst w" "snd w \<le> snd w'" "partition_move w t index k = Inr t'"
  shows "partition_move w' t index k = Inr t'"
proof -
  from assms(3) obtain v where r: "rd_in w t k = Inr v" and wq: "wr_in w t index v = Inr t'"
    unfolding partition_move_def by (rule ebindE)
  from rd_in_widen [OF assms(1,2) r] wr_in_widen [OF assms(1,2) wq]
  show ?thesis by (simp add: partition_move_def)
qed

lemma partition_down_widen:
  assumes "fst w' \<le> fst w" "snd w \<le> snd w'" "partition_down w t mid i j = Inr j1"
  shows "partition_down w' t mid i j = Inr j1"
  using assms
proof (induction w t mid i j rule: partition_down.induct)
  case (1 w t mid i j)
  show ?case
  proof (cases "i \<le> j")
    case False
    with "1.prems"(3) show ?thesis
      by (subst partition_down.simps) (simp add: partition_down.simps [of w])
  next
    case True
    with "1.prems"(3) have "ebind (rd_in w t j) (\<lambda>v.
          if v > mid then partition_down w t mid i (j - 1) else Inr j) = Inr j1"
      by (subst (asm) partition_down.simps) simp
    then obtain v where r: "rd_in w t j = Inr v"
      and k: "(if v > mid then partition_down w t mid i (j - 1) else Inr j) = Inr j1"
      by (rule ebindE)
    note r' = rd_in_widen [OF "1.prems"(1,2) r]
    show ?thesis
    proof (cases "v > mid")
      case gt: True
      with k have "partition_down w t mid i (j - 1) = Inr j1" by simp
      from "1.IH" [OF True r gt "1.prems"(1,2) this] True r' gt show ?thesis
        by (subst partition_down.simps) simp
    next
      case False
      with k True r' show ?thesis by (subst partition_down.simps) simp
    qed
  qed
qed

lemma partition_up_widen:
  assumes "fst w' \<le> fst w" "snd w \<le> snd w'" "partition_up w t mid i j = Inr i1"
  shows "partition_up w' t mid i j = Inr i1"
  using assms
proof (induction w t mid i j rule: partition_up.induct)
  case (1 w t mid i j)
  show ?case
  proof (cases "i \<le> j")
    case False
    with "1.prems"(3) show ?thesis
      by (subst partition_up.simps) (simp add: partition_up.simps [of w])
  next
    case True
    with "1.prems"(3) have "ebind (rd_in w t i) (\<lambda>v.
          if v < mid then partition_up w t mid (i + 1) j else Inr i) = Inr i1"
      by (subst (asm) partition_up.simps) simp
    then obtain v where r: "rd_in w t i = Inr v"
      and k: "(if v < mid then partition_up w t mid (i + 1) j else Inr i) = Inr i1"
      by (rule ebindE)
    note r' = rd_in_widen [OF "1.prems"(1,2) r]
    show ?thesis
    proof (cases "v < mid")
      case lt: True
      with k have "partition_up w t mid (i + 1) j = Inr i1" by simp
      from "1.IH" [OF True r lt "1.prems"(1,2) this] True r' lt show ?thesis
        by (subst partition_up.simps) simp
    next
      case False
      with k True r' show ?thesis by (subst partition_up.simps) simp
    qed
  qed
qed

lemma partition_loop_widen:
  assumes "fst w' \<le> fst w" "snd w \<le> snd w'" "partition_loop w t mid index i j = Inr res"
  shows "partition_loop w' t mid index i j = Inr res"
  using assms
proof (induction w t mid index i j rule: partition_loop.induct)
  case (1 w t mid index i j)
  note wd = "1.prems"(1,2)
  show ?case
  proof (cases "i \<le> j")
    case False
    with "1.prems"(3) show ?thesis
      by (subst partition_loop.simps) (simp add: partition_loop.simps [of w])
  next
    case True
    let ?mv1 = "\<lambda>w j1. (if i \<le> j1
               then ebind (partition_move w t index j1) (\<lambda>t. Inr (t, j1, j1 - 1))
               else Inr (t, index, j1))"
    let ?mv2 = "\<lambda>w t1 index1 j2 i1. (if i1 \<le> j2
               then ebind (partition_move w t1 index1 i1) (\<lambda>t. Inr (t, i1, i1 + 1))
               else Inr (t1, index1, i1))"
    from True "1.prems"(3) have u:
      "ebind (partition_down w t mid i j) (\<lambda>j1.
        ebind (?mv1 w j1) (\<lambda>(t1, index1, j2).
        ebind (partition_up w t1 mid i j2) (\<lambda>i1.
        ebind (?mv2 w t1 index1 j2 i1) (\<lambda>(t2, index2, i2).
          partition_loop w t2 mid index2 i2 j2)))) = Inr res"
      by (subst (asm) partition_loop.simps) simp
    then obtain j1 where d: "partition_down w t mid i j = Inr j1"
      and u1: "ebind (?mv1 w j1) (\<lambda>(t1, index1, j2).
        ebind (partition_up w t1 mid i j2) (\<lambda>i1.
        ebind (?mv2 w t1 index1 j2 i1) (\<lambda>(t2, index2, i2).
          partition_loop w t2 mid index2 i2 j2))) = Inr res"
      by (rule ebindE)
    from u1 obtain r1 where m1: "?mv1 w j1 = Inr r1"
      and u2: "(case r1 of (t1, index1, j2) \<Rightarrow>
        ebind (partition_up w t1 mid i j2) (\<lambda>i1.
        ebind (?mv2 w t1 index1 j2 i1) (\<lambda>(t2, index2, i2).
          partition_loop w t2 mid index2 i2 j2))) = Inr res"
      by (rule ebindE)
    obtain t1 index1 j2 where r1: "r1 = (t1, index1, j2)" by (cases r1)
    from u2 [unfolded r1 prod.case] obtain i1 where up: "partition_up w t1 mid i j2 = Inr i1"
      and u3: "ebind (?mv2 w t1 index1 j2 i1) (\<lambda>(t2, index2, i2).
          partition_loop w t2 mid index2 i2 j2) = Inr res"
      by (rule ebindE)
    from u3 obtain r2 where m2: "?mv2 w t1 index1 j2 i1 = Inr r2"
      and u4: "(case r2 of (t2, index2, i2) \<Rightarrow>
          partition_loop w t2 mid index2 i2 j2) = Inr res"
      by (rule ebindE)
    obtain t2 index2 i2 where r2: "r2 = (t2, index2, i2)" by (cases r2)
    from u4 have rec: "partition_loop w t2 mid index2 i2 j2 = Inr res" by (simp add: r2)
    have rec': "partition_loop w' t2 mid index2 i2 j2 = Inr res"
      by (rule "1.IH" [OF True d m1 [unfolded r1] refl refl up m2 [unfolded r2] refl refl wd rec])
    have d': "partition_down w' t mid i j = Inr j1" by (rule partition_down_widen [OF wd d])
    have up': "partition_up w' t1 mid i j2 = Inr i1" by (rule partition_up_widen [OF wd up])
    have m1': "?mv1 w' j1 = Inr (t1, index1, j2)"
    proof (cases "i \<le> j1")
      case False
      with m1 r1 show ?thesis by simp
    next
      case a: True
      with m1 r1 have "ebind (partition_move w t index j1) (\<lambda>t. Inr (t, j1, j1 - 1))
         = Inr (t1, index1, j2)" by simp
      then obtain x where "partition_move w t index j1 = Inr x"
        "Inr (x, j1, j1 - 1) = (Inr (t1, index1, j2) :: error + _)" by (rule ebindE)
      with partition_move_widen [OF wd this(1)] a show ?thesis by simp
    qed
    have m2': "?mv2 w' t1 index1 j2 i1 = Inr (t2, index2, i2)"
    proof (cases "i1 \<le> j2")
      case False
      with m2 r2 show ?thesis by simp
    next
      case a: True
      with m2 r2 have "ebind (partition_move w t1 index1 i1) (\<lambda>t. Inr (t, i1, i1 + 1))
         = Inr (t2, index2, i2)" by simp
      then obtain x where "partition_move w t1 index1 i1 = Inr x"
        "Inr (x, i1, i1 + 1) = (Inr (t2, index2, i2) :: error + _)" by (rule ebindE)
      with partition_move_widen [OF wd this(1)] a show ?thesis by simp
    qed
    show ?thesis
      using True d' m1' up' m2' rec' by (subst partition_loop.simps) simp
  qed
qed

lemma select_partition_widen:
  assumes "fst w' \<le> fst w" "snd w \<le> snd w'"
    "select_partition w t mid left right index0 = Inr res"
  shows "select_partition w' t mid left right index0 = Inr res"
proof -
  from assms(3) obtain t0 where mv: "partition_move w t index0 left = Inr t0"
    and u1: "ebind (partition_loop w t0 mid left left right) (\<lambda>(t1, index).
     ebind (wr_in w t1 index mid) (\<lambda>t2. Inr (t2, index))) = Inr res"
    unfolding select_partition_def by (rule ebindE)
  from u1 obtain r1 where lp: "partition_loop w t0 mid left left right = Inr r1"
    and u2: "(case r1 of (t1, index) \<Rightarrow>
     ebind (wr_in w t1 index mid) (\<lambda>t2. Inr (t2, index))) = Inr res"
    by (rule ebindE)
  obtain t1 index where r1: "r1 = (t1, index)" by (cases r1)
  from u2 [unfolded r1 prod.case] obtain t2 where wq: "wr_in w t1 index mid = Inr t2"
    and rs: "Inr (t2, index) = (Inr res :: error + _)" by (rule ebindE)
  from partition_move_widen [OF assms(1,2) mv] partition_loop_widen [OF assms(1,2) lp]
    wr_in_widen [OF assms(1,2) wq] rs r1
  show ?thesis by (simp add: select_partition_def)
qed

section \<open>The claims\<close>

text \<open>
  C3. Before the first recompute, \<^verbatim>\<open>get_percentile\<close> should return the sentinel -1 also
  after samples have been recorded. The code returns -1 only while \<^verbatim>\<open>_tail == 0\<close>: after
  one \<^verbatim>\<open>set\<close> on a new counter it returns the content of \<^verbatim>\<open>_ans\<close>, which nothing
  has initialised. On the example counter (memory all zero) the answer is 0, not -1.
\<close>

theorem get_percentile_before_calc:
  "\<exists>s1. percentile_set example_counter 7 = Inr s1 \<and>
     get_percentile s1 COUNTER_PERCENTILE_50 = Inr 0"
  by (simp add: percentile_set_def example_counter_def Let_def wr_def rd_def
      MAX_QUEUE_LENGTH_def get_percentile_def COUNTER_PERCENTILE_COUNT_def
      COUNTER_PERCENTILE_50_def to_double_exact)

text \<open>
  C5. A tag outside the enumeration should fail the assertion in every state. The test
  \<^verbatim>\<open>_tail == 0\<close> comes first in \<^verbatim>\<open>get_percentile\<close>: on a counter without samples
  the tags 5 and -1 return -1 and no assertion fails.
\<close>

theorem get_percentile_invalid_tag_no_assert:
  "get_percentile example_counter COUNTER_PERCENTILE_COUNT = Inr (- 1) \<and>
   get_percentile example_counter (- 1) = Inr (- 1)"
  by (simp add: get_percentile_def example_counter_def)

text \<open>
  C6. \<^verbatim>\<open>set\<close> should succeed in every state and advance the cursor by one. At
  \<^verbatim>\<open>_tail = 2147483647\<close> the increment wraps to -2147483648, and the next \<^verbatim>\<open>set\<close>
  computes the slot \<^verbatim>\<open>-2147483648 % 50000 = -33648\<close>, outside the array.
\<close>

theorem set_overflow:
  "\<exists>s1. percentile_set (example_counter\<lparr>c_tail := 2147483647\<rparr>) v = Inr s1 \<and>
     sint (c_tail s1) = - 2147483648 \<and>
     percentile_set s1 v = Inl OutOfBounds"
  by (simp add: percentile_set_def example_counter_def Let_def wr_def MAX_QUEUE_LENGTH_def
      signed_modulo_int_def)

text \<open>
  C7. \<^verbatim>\<open>calc\<close> on a counter without samples (\<^verbatim>\<open>_tail == 0\<close>) returns at once: the
  counter is unchanged, and \<^verbatim>\<open>get_percentile\<close> still returns -1 for every tag.
\<close>

theorem calc_empty_unchanged:
  assumes "c_tail s = 0"
  shows "calc s = Inr s \<and> (\<forall>t. get_percentile s t = Inr (- 1))"
  using assms by (simp add: calc_def get_percentile_def)

theorem calc_empty_unchanged_witness:
  "c_tail example_counter = 0 \<and> calc example_counter = Inr example_counter \<and>
   (\<forall>t. get_percentile example_counter t = Inr (- 1))"
proof -
  have h: "c_tail example_counter = 0" by (simp add: example_counter_def)
  from calc_empty_unchanged [OF h] h show ?thesis by simp
qed

text \<open>
  C8. The mutations a counter kind does not support fail their assertion for every argument
  and in every state: \<^verbatim>\<open>increment\<close>, \<^verbatim>\<open>decrement\<close> and \<^verbatim>\<open>add\<close> of the percentile
  counter, and \<^verbatim>\<open>set\<close> of the number counter. The call ends there, so no changed counter
  is returned.
\<close>

theorem unsupported_mutations_assert:
  "percentile_increment s = Inl AssertFailed \<and>
   percentile_decrement s = Inl AssertFailed \<and>
   percentile_add s val = Inl AssertFailed \<and>
   number_set c val = Inl AssertFailed"
  by (simp add: percentile_increment_def percentile_decrement_def percentile_add_def
      number_set_def dassert_def)

text \<open>
  C1. For \<open>n\<close> samples recorded on a new counter, \<open>1 \<le> n \<le> 50000\<close>, one
  \<^verbatim>\<open>calc\<close> makes \<^verbatim>\<open>get_percentile\<close> return, for each of the five tags, the
  element of rank \<open>floor (n * p) + 1\<close> (counted from 1) of the sorted samples, converted
  to \<^verbatim>\<open>double\<close>: the element itself when it is at most \<open>2 ^ 53\<close>, and the nearest
  double otherwise.
\<close>

theorem calc_rank_correct:
  assumes "fresh_counter s" "1 \<le> length xs" "length xs \<le> 50000"
    "0 \<le> t" "t < COUNTER_PERCENTILE_COUNT"
  shows "\<exists>s1 s2. record_all s xs = Inr s1 \<and> calc s1 = Inr s2 \<and>
           get_percentile s2 t = Inr (to_double (sort xs ! (spec_rank (length xs) t - 1))) \<and>
           (uint (sort xs ! (spec_rank (length xs) t - 1)) \<le> 2 ^ 53 \<longrightarrow>
              get_percentile s2 t = Inr (uint (sort xs ! (spec_rank (length xs) t - 1))))"
proof -
  define n where "n = length xs"
  have nb: "n < 2 ^ 31" using assms(3) by (simp add: n_def)
  from recorded_counter [OF assms(1)] nb obtain s1 where
    r: "record_all s xs = Inr s1" and wf1: "wf_counter s1"
    and sn: "sint (c_tail s1) = int n" and lq: "length (c_queue s1) = 50000"
    and qv: "\<And>i. i < n \<Longrightarrow> n \<le> i + 50000 \<Longrightarrow> c_queue s1 ! (i mod 50000) = xs ! i"
    unfolding n_def by blast
  have w: "window s1 = int n"
    using sn assms(3) by (simp add: window_def MAX_QUEUE_LENGTH_def n_def)
  have tk: "take n (c_queue s1) = xs"
  proof (rule nth_equalityI)
    show "length (take n (c_queue s1)) = length xs" using lq assms(3) by (simp add: n_def)
    fix i assume "i < length (take n (c_queue s1))"
    then have i: "i < n" by simp
    with assms(3) have "c_queue s1 ! (i mod 50000) = xs ! i" by (intro qv) (simp_all add: n_def)
    with i assms(3) show "take n (c_queue s1) ! i = xs ! i" by (simp add: n_def)
  qed
  have n1: "1 \<le> sint (c_tail s1)" using sn assms(2) by (simp add: n_def)
  from calc_answers [OF wf1 n1 assms(4,5)] obtain s2 where
    c: "calc s1 = Inr s2"
    and g: "get_percentile s2 t =
       Inr (to_double (sort (take (nat (window s1)) (c_queue s1)) ! nat (target (window s1) t)))"
    by blast
  have "int (spec_rank n t) = target (int n) t + 1"
    using assms(4,5) by (rule spec_rank_target)
  then have "spec_rank n t - 1 = nat (target (int n) t)" by linarith
  with g have g': "get_percentile s2 t = Inr (to_double (sort xs ! (spec_rank (length xs) t - 1)))"
    by (simp add: w tk [unfolded n_def] n_def)
  have "get_percentile s2 t = Inr (uint (sort xs ! (spec_rank (length xs) t - 1)))"
    if "uint (sort xs ! (spec_rank (length xs) t - 1)) \<le> 2 ^ 53"
    unfolding g' using that by (simp only: to_double_exact)
  with r c g' show ?thesis by blast
qed

theorem calc_rank_correct_witness:
  "fresh_counter example_counter \<and> 1 \<le> length [5, 1, 4, 2, 3 :: 64 word] \<and>
   length [5, 1, 4, 2, 3 :: 64 word] \<le> 50000 \<and>
   uint (sort [5, 1, 4, 2, 3 :: 64 word] !
     (spec_rank (length [5, 1, 4, 2, 3 :: 64 word]) COUNTER_PERCENTILE_50 - 1)) \<le> 2 ^ 53 \<and>
   (\<exists>s1 s2. record_all example_counter [5, 1, 4, 2, 3] = Inr s1 \<and> calc s1 = Inr s2 \<and>
      get_percentile s2 COUNTER_PERCENTILE_50 = Inr 3)"
proof -
  have "int (spec_rank 5 0) = target 5 0 + 1"
    using spec_rank_target [of 0 5] by (simp add: COUNTER_PERCENTILE_COUNT_def)
  then have "spec_rank 5 0 = 3"
    by (simp add: target_def scaled_def)
  moreover have "length [5, 1, 4, 2, 3 :: 64 word] = 5" by simp
  ultimately have s: "spec_rank (length [5, 1, 4, 2, 3 :: 64 word]) 0 - 1 = 2"
    by (simp only:)
  have st: "sort [5, 1, 4, 2, 3 :: 64 word] ! 2 = 3" by code_simp
  have e: "uint (sort [5, 1, 4, 2, 3 :: 64 word] !
      (spec_rank (length [5, 1, 4, 2, 3 :: 64 word]) 0 - 1)) = 3"
    unfolding s st by simp
  have b: "uint (sort [5, 1, 4, 2, 3 :: 64 word] !
      (spec_rank (length [5, 1, 4, 2, 3 :: 64 word]) COUNTER_PERCENTILE_50 - 1)) \<le> 2 ^ 53"
    unfolding COUNTER_PERCENTILE_50_def e by simp
  have l: "1 \<le> length [5, 1, 4, 2, 3 :: 64 word]" "length [5, 1, 4, 2, 3 :: 64 word] \<le> 50000"
    by simp_all
  have "\<exists>s1 s2. record_all example_counter [5, 1, 4, 2, 3] = Inr s1 \<and> calc s1 = Inr s2 \<and>
      get_percentile s2 0 =
        Inr (to_double (sort [5, 1, 4, 2, 3 :: 64 word] !
          (spec_rank (length [5, 1, 4, 2, 3 :: 64 word]) 0 - 1))) \<and>
      (uint (sort [5, 1, 4, 2, 3 :: 64 word] !
          (spec_rank (length [5, 1, 4, 2, 3 :: 64 word]) 0 - 1)) \<le> 2 ^ 53 \<longrightarrow>
       get_percentile s2 0 =
         Inr (uint (sort [5, 1, 4, 2, 3 :: 64 word] !
           (spec_rank (length [5, 1, 4, 2, 3 :: 64 word]) 0 - 1))))"
    by (rule calc_rank_correct [OF example_counter_fresh l])
      (simp_all add: COUNTER_PERCENTILE_COUNT_def)
  then obtain s1 s2 where r: "record_all example_counter [5, 1, 4, 2, 3] = Inr s1"
    and c: "calc s1 = Inr s2"
    and g: "uint (sort [5, 1, 4, 2, 3 :: 64 word] !
          (spec_rank (length [5, 1, 4, 2, 3 :: 64 word]) 0 - 1)) \<le> 2 ^ 53 \<longrightarrow>
       get_percentile s2 0 =
         Inr (uint (sort [5, 1, 4, 2, 3 :: 64 word] !
           (spec_rank (length [5, 1, 4, 2, 3 :: 64 word]) 0 - 1)))"
    by blast
  from g b have "get_percentile s2 COUNTER_PERCENTILE_50 = Inr 3"
    unfolding COUNTER_PERCENTILE_50_def e by blast
  with r c have "\<exists>s1 s2. record_all example_counter [5, 1, 4, 2, 3] = Inr s1 \<and>
      calc s1 = Inr s2 \<and> get_percentile s2 COUNTER_PERCENTILE_50 = Inr 3"
    by blast
  with example_counter_fresh l b show ?thesis by blast
qed

text \<open>
  C1, above \<open>2 ^ 53\<close>. One sample \<open>2 ^ 53 + 1 = 9007199254740993\<close> is the element of
  rank 1 for tag 50; \<^verbatim>\<open>get_percentile\<close> returns the double 9007199254740992.
\<close>

theorem calc_rank_rounded:
  "read_tag (ebind (record_all example_counter [9007199254740993]) calc)
     COUNTER_PERCENTILE_50 = Inr 9007199254740992 \<and>
   uint (sort [9007199254740993 :: 64 word] ! (spec_rank 1 COUNTER_PERCENTILE_50 - 1)) =
     9007199254740993"
proof -
  have "int (spec_rank 1 0) = target 1 0 + 1"
    using spec_rank_target [of 0 1] by (simp add: COUNTER_PERCENTILE_COUNT_def)
  moreover have "target 1 0 = 0"
    by (simp add: target_def scaled_def signed_divide_int_def)
  ultimately have s: "spec_rank 1 COUNTER_PERCENTILE_50 - 1 = 0"
    unfolding COUNTER_PERCENTILE_50_def by simp
  have rs: "round_shift 9007199254740993 = Suc 0"
    by (subst round_shift.simps, subst round_shift.simps) simp
  have td: "to_double 9007199254740993 = 9007199254740992"
    by (simp add: to_double_def rs)
  have "read_tag (ebind (record_all example_counter [9007199254740993]) calc)
     COUNTER_PERCENTILE_50 = Inr (to_double 9007199254740993)"
    by (simp add: read_tag_def rd_def wr_def
      rd_in_def wr_in_def whole_def Let_def MAX_QUEUE_LENGTH_def COUNTER_PERCENTILE_50_def
      COUNTER_PERCENTILE_90_def COUNTER_PERCENTILE_95_def COUNTER_PERCENTILE_99_def
      COUNTER_PERCENTILE_999_def COUNTER_PERCENTILE_COUNT_def scaled_def select_answers.simps
      insert_calc_queue_def select_def calc_copy.simps calc_prepare_def
      dassert_def signed_divide_int_def signed_modulo_int_def percentile_set_def
      get_percentile_def calc_def calc_loop.simps example_counter_def)
  then have a: "read_tag (ebind (record_all example_counter [9007199254740993]) calc)
     COUNTER_PERCENTILE_50 = Inr 9007199254740992"
    unfolding td .
  have b: "uint (sort [9007199254740993 :: 64 word] !
      (spec_rank 1 COUNTER_PERCENTILE_50 - 1)) = 9007199254740993"
    unfolding s by simp
  from a b show ?thesis ..
qed

text \<open>
  C4. Recording \<open>50000 + k\<close> samples and recomputing should give the percentiles of the
  last 50000 samples for every \<open>k > 0\<close>. That holds while \<open>50000 + k < 2 ^ 31\<close>
  (\<open>calc_recent_window\<close>). \<^verbatim>\<open>_tail\<close> is a 32-bit \<^verbatim>\<open>int\<close>: the sample number
  \<open>2 ^ 31\<close> wraps it to \<open>-2147483648\<close>, and for the next one \<^verbatim>\<open>set\<close> computes the slot
  \<^verbatim>\<open>-2147483648 % 50000 = -33648\<close>, outside \<^verbatim>\<open>_queue\<close>. With
  \<open>k = 2147433649\<close> the recording itself fails.
\<close>

theorem record_beyond_int_max:
  "record_all example_counter (replicate 2147483649 7) = Inl OutOfBounds"
proof -
  define xs :: "64 word list" where "xs = replicate 2147483647 7"
  have lx: "length xs = 2147483647" by (simp add: xs_def)
  have "replicate (2147483647 + 2) (7 :: 64 word) = replicate 2147483647 7 @ replicate 2 7"
    by (rule replicate_add)
  then have sp: "replicate 2147483649 (7 :: 64 word) = xs @ [7, 7]"
    by (simp add: xs_def numeral_2_eq_2)
  have "length xs < 2 ^ 31" by (simp add: lx)
  from recorded_counter [OF example_counter_fresh this] obtain s1 where
    r: "record_all example_counter xs = Inr s1" and wf1: "wf_counter s1"
    and tl: "c_tail s1 = of_nat (length xs)"
    by blast
  define s2 where "s2 = s1\<lparr>c_tail := of_nat (Suc 2147483647),
    c_queue := (c_queue s1)[2147483647 mod 50000 := 7]\<rparr>"
  have p1: "percentile_set s1 7 = Inr s2"
    unfolding s2_def by (rule percentile_set_ok [OF wf1]) (simp_all add: tl lx)
  have t2: "sint (c_tail s2) = - 2147483648" by (simp add: s2_def)
  have p2: "percentile_set s2 7 = Inl OutOfBounds"
    unfolding percentile_set_def Let_def t2
    by (simp add: wr_def MAX_QUEUE_LENGTH_def signed_modulo_int_def)
  show ?thesis unfolding sp record_all_append r using p1 p2 by simp
qed

text \<open>
  C2. The five answers are not published as one unit: \<^verbatim>\<open>select\<close> writes
  \<^verbatim>\<open>_ans[i]\<close> tag by tag, whenever the range of a task has shrunk to one element, and
  \<^verbatim>\<open>get_percentile\<close> reads \<^verbatim>\<open>_ans\<close> with no lock. What holds: a read between two
  iterations of the loop of \<^verbatim>\<open>calc\<close> returns, for each tag, either the answer the
  tag had before the recompute or the answer it has after it, and after \<^verbatim>\<open>calc\<close> has
  returned every tag has the answer of the same snapshot.
\<close>

theorem get_percentile_during_calc:
  assumes "wf_counter s" "1 \<le> sint (c_tail s)" "0 \<le> t" "t < COUNTER_PERCENTILE_COUNT"
  shows "\<exists>s' sn. calc s = Inr s' \<and> calc_in_flight n s = Inr sn \<and>
     (get_percentile sn t = get_percentile s t \<or>
      get_percentile sn t = get_percentile s' t) \<and>
     get_percentile s' t =
       Inr (to_double (sort (take (nat (window s)) (c_queue s)) ! nat (target (window s) t)))"
proof -
  from calc_answers [OF assms] obtain s' where c: "calc s = Inr s'"
    and g': "get_percentile s' t =
       Inr (to_double (sort (take (nat (window s)) (c_queue s)) ! nat (target (window s) t)))"
    by blast
  from calc_in_flight_spec [OF assms] obtain sn where e: "calc_in_flight n s = Inr sn"
    and wf': "wf_counter sn" and tl: "c_tail sn = c_tail s"
    and a: "c_ans sn ! nat t = c_ans s ! nat t \<or>
      c_ans sn ! nat t = sort (take (nat (window s)) (c_queue s)) ! nat (target (window s) t)"
    by blast
  from assms(2) have nz: "c_tail s \<noteq> 0" by auto
  with tl have nz': "c_tail sn \<noteq> 0" by simp
  have g: "get_percentile s t = Inr (to_double (c_ans s ! nat t))"
    by (rule get_percentile_answer [OF assms(1) nz assms(3,4)])
  have gn: "get_percentile sn t = Inr (to_double (c_ans sn ! nat t))"
    by (rule get_percentile_answer [OF wf' nz' assms(3,4)])
  from a have "get_percentile sn t = get_percentile s t \<or>
      get_percentile sn t = get_percentile s' t"
    unfolding g gn g' by auto
  with c e g' show ?thesis by blast
qed

theorem get_percentile_during_calc_witness:
  "wf_counter (example_counter\<lparr>c_tail := 3\<rparr>) \<and>
   (\<exists>s' sn. calc (example_counter\<lparr>c_tail := 3\<rparr>) = Inr s' \<and>
      calc_in_flight 2 (example_counter\<lparr>c_tail := 3\<rparr>) = Inr sn \<and>
      (get_percentile sn COUNTER_PERCENTILE_90 =
         get_percentile (example_counter\<lparr>c_tail := 3\<rparr>) COUNTER_PERCENTILE_90 \<or>
       get_percentile sn COUNTER_PERCENTILE_90 = get_percentile s' COUNTER_PERCENTILE_90))"
proof -
  have wf: "wf_counter (example_counter\<lparr>c_tail := 3\<rparr>)"
    using example_counter_fresh by (simp add: fresh_counter_def wf_counter_def)
  have "\<exists>s' sn. calc (example_counter\<lparr>c_tail := 3\<rparr>) = Inr s' \<and>
     calc_in_flight 2 (example_counter\<lparr>c_tail := 3\<rparr>) = Inr sn \<and>
     (get_percentile sn COUNTER_PERCENTILE_90 =
        get_percentile (example_counter\<lparr>c_tail := 3\<rparr>) COUNTER_PERCENTILE_90 \<or>
      get_percentile sn COUNTER_PERCENTILE_90 = get_percentile s' COUNTER_PERCENTILE_90) \<and>
     get_percentile s' COUNTER_PERCENTILE_90 =
       Inr (to_double (sort (take (nat (window (example_counter\<lparr>c_tail := 3\<rparr>)))
         (c_queue (example_counter\<lparr>c_tail := 3\<rparr>))) !
           nat (target (window (example_counter\<lparr>c_tail := 3\<rparr>)) COUNTER_PERCENTILE_90)))"
    by (rule get_percentile_during_calc [OF wf])
      (simp_all add: COUNTER_PERCENTILE_90_def COUNTER_PERCENTILE_COUNT_def)
  with wf show ?thesis by blast
qed

text \<open>
  C2, the mixed read. After the sample 1 and a recompute, every tag answers 1. The samples
  5 and 9 follow. Three iterations into the second recompute, tag 50 answers 5, its new
  value, while tag 90 still answers 1; it answers 9 once the recompute is over.
\<close>

theorem answers_mixed_during_calc:
  "read_tag two_epochs COUNTER_PERCENTILE_50 = Inr 1 \<and>
   read_tag two_epochs COUNTER_PERCENTILE_90 = Inr 1 \<and>
   read_tag (ebind two_epochs (calc_in_flight 3)) COUNTER_PERCENTILE_50 = Inr 5 \<and>
   read_tag (ebind two_epochs (calc_in_flight 3)) COUNTER_PERCENTILE_90 = Inr 1 \<and>
   read_tag (ebind two_epochs calc) COUNTER_PERCENTILE_50 = Inr 5 \<and>
   read_tag (ebind two_epochs calc) COUNTER_PERCENTILE_90 = Inr 9"
  by (simp add: read_tag_def two_epochs_def calc_in_flight_def numeral_3_eq_3 rd_def wr_def
      rd_in_def wr_in_def whole_def Let_def MAX_QUEUE_LENGTH_def COUNTER_PERCENTILE_50_def
      COUNTER_PERCENTILE_90_def COUNTER_PERCENTILE_95_def COUNTER_PERCENTILE_99_def
      COUNTER_PERCENTILE_999_def COUNTER_PERCENTILE_COUNT_def scaled_def find_mid_shift.simps
      find_mid_insert.simps find_mid_groups.simps find_mid.simps select_answers.simps
      select_copy.simps select_locate.simps partition_down.simps partition_up.simps
      partition_loop.simps select_skip.simps select_sub.simps select_bump.simps
      partition_move_def select_partition_def insert_calc_queue_def select_pivot_def
      select_ranks_def select_push_def select_def calc_copy.simps calc_prepare_def calc_step_def
      dassert_def signed_divide_int_def signed_modulo_int_def percentile_set_def
      get_percentile_def calc_def calc_loop.simps example_counter_def to_double_exact)

text \<open>
  C9. On every counter that holds \<open>n\<close> samples, \<open>1 \<le> n \<le> 50000\<close>, \<^verbatim>\<open>calc\<close>
  returns: the preparation queues one task, the worklist loop ends with the worklist
  exhausted after at most \<open>3 * n - 2\<close> tasks, and neither an array bound nor the
  assertion of \<^verbatim>\<open>select\<close> stops it. (The loops and the recursion of
  \<^verbatim>\<open>find_mid\<close> are total functions by their termination proofs above.)
\<close>

theorem calc_terminates:
  assumes "wf_counter s" "1 \<le> sint (c_tail s)" "sint (c_tail s) \<le> 50000"
  shows "\<exists>s1 s' r'. calc_prepare s = Inr (s1, 1) \<and> calc_loop s1 1 1 = Inr (s', r') \<and>
     r' \<le> 3 * sint (c_tail s) - 2 \<and> calc s = Inr s'"
proof -
  from assms(3) have "window s = sint (c_tail s)"
    by (simp add: window_def MAX_QUEUE_LENGTH_def)
  with calc_run_spec [OF assms(1,2)] show ?thesis by force
qed

theorem calc_terminates_witness:
  "wf_counter (example_counter\<lparr>c_tail := 3\<rparr>) \<and>
   (\<exists>s1 s' r'. calc_prepare (example_counter\<lparr>c_tail := 3\<rparr>) = Inr (s1, 1) \<and>
      calc_loop s1 1 1 = Inr (s', r') \<and> r' \<le> 7 \<and>
      calc (example_counter\<lparr>c_tail := 3\<rparr>) = Inr s')"
proof -
  have wf: "wf_counter (example_counter\<lparr>c_tail := 3\<rparr>)"
    using example_counter_fresh by (simp add: fresh_counter_def wf_counter_def)
  have "\<exists>s1 s' r'. calc_prepare (example_counter\<lparr>c_tail := 3\<rparr>) = Inr (s1, 1) \<and>
      calc_loop s1 1 1 = Inr (s', r') \<and>
      r' \<le> 3 * sint (c_tail (example_counter\<lparr>c_tail := 3\<rparr>)) - 2 \<and>
      calc (example_counter\<lparr>c_tail := 3\<rparr>) = Inr s'"
    by (rule calc_terminates [OF wf]) simp_all
  with wf show ?thesis by simp
qed

text \<open>
  C10. For every content of \<^verbatim>\<open>_tmp\<close> and \<^verbatim>\<open>_mid_temp\<close> and every range
  \<open>left \<le> right\<close> inside the arrays: the pivot that \<^verbatim>\<open>find_mid\<close> returns occurs
  in \<^verbatim>\<open>_tmp[left..right]\<close>, the scan finds it at an index at most \<open>right\<close>, and
  the partition step succeeds when it may touch the indices \<open>left, ..., right\<close> only,
  with the result it has on the whole array.
\<close>

theorem select_pivot_in_range:
  assumes "0 \<le> left" "left \<le> right" "right < int (length tmpl)" "right < int (length m)"
  shows "\<exists>m0 mid m1 index0 t index.
     select_copy tmpl m left right = Inr m0 \<and>
     find_mid m0 left right = Inr (mid, m1) \<and>
     mid \<in> set (segment tmpl left right) \<and>
     select_locate tmpl mid left right = Inr index0 \<and> index0 \<le> right \<and>
     select_partition (left, right) tmpl mid left right index0 = Inr (t, index) \<and>
     select_partition (whole tmpl) tmpl mid left right index0 = Inr (t, index)"
proof -
  define S where "S = {v. \<exists>p. left \<le> p \<and> p \<le> right \<and> tmpl ! nat p = v}"
  from assms obtain m0 where c: "select_copy tmpl m left right = Inr m0"
    and l0: "length m0 = length m"
    and v: "\<And>p. left \<le> p \<Longrightarrow> p \<le> right \<Longrightarrow> m0 ! nat p = tmpl ! nat p"
    using select_copy_spec [of left right m tmpl] by auto
  have "\<exists>v m'. find_mid m0 left right = Inr (v, m') \<and> length m' = length m0 \<and> v \<in> S"
    by (rule find_mid_spec) (use assms l0 v in \<open>auto simp: S_def\<close>)
  then obtain mid m1 where f: "find_mid m0 left right = Inr (mid, m1)" and "mid \<in> S" by blast
  then obtain p where p: "left \<le> p" "p \<le> right" "tmpl ! nat p = mid" by (auto simp: S_def)
  have "segment tmpl left right ! nat (p - left) = tmpl ! nat p"
    by (rule nth_segment) (use assms p in auto)
  moreover have "nat (p - left) < length (segment tmpl left right)"
    using assms p by (simp add: length_segment)
  ultimately have mem: "mid \<in> set (segment tmpl left right)"
    using p(3) nth_mem by metis
  have "\<exists>i0. select_locate tmpl mid left right = Inr i0 \<and> left \<le> i0 \<and> i0 \<le> right \<and>
           tmpl ! nat i0 = mid"
    by (rule select_locate_spec) (use assms p in auto)
  then obtain index0 where lo: "select_locate tmpl mid left right = Inr index0"
    and ib: "left \<le> index0" "index0 \<le> right" "tmpl ! nat index0 = mid" by blast
  have "\<exists>t' index. select_partition (left, right) tmpl mid left right index0 = Inr (t', index) \<and>
      length t' = length tmpl \<and> left \<le> index \<and> index \<le> right \<and> t' ! nat index = mid \<and>
      (\<forall>p. left \<le> p \<and> p < index \<longrightarrow> t' ! nat p \<le> mid) \<and>
      (\<forall>p. index < p \<and> p \<le> right \<longrightarrow> mid \<le> t' ! nat p) \<and>
      (\<forall>p. 0 \<le> p \<and> (p < left \<or> right < p) \<longrightarrow> t' ! nat p = tmpl ! nat p) \<and>
      mset t' = mset tmpl"
    by (rule select_partition_spec) (use assms ib in auto)
  then obtain t index where
    p1: "select_partition (left, right) tmpl mid left right index0 = Inr (t, index)" by blast
  have p2: "select_partition (whole tmpl) tmpl mid left right index0 = Inr (t, index)"
    by (rule select_partition_widen [OF _ _ p1]) (use assms in \<open>simp_all add: whole_def\<close>)
  with c f mem lo ib p1 p2 show ?thesis by auto
qed

theorem select_pivot_in_range_witness:
  "(0 :: int) \<le> 0 \<and> (0 :: int) \<le> 4 \<and> 4 < int (length [5, 1, 4, 2, 3 :: 64 word]) \<and>
   4 < int (length [0, 0, 0, 0, 0 :: 64 word]) \<and>
   (\<exists>m0 mid m1 index0 t index.
     select_copy [5, 1, 4, 2, 3] [0, 0, 0, 0, 0] 0 4 = Inr m0 \<and>
     find_mid m0 0 4 = Inr (mid, m1) \<and>
     mid \<in> set (segment [5, 1, 4, 2, 3] 0 4) \<and>
     select_locate [5, 1, 4, 2, 3] mid 0 4 = Inr index0 \<and> index0 \<le> 4 \<and>
     select_partition (0, 4) [5, 1, 4, 2, 3] mid 0 4 index0 = Inr (t, index) \<and>
     select_partition (whole [5, 1, 4, 2, 3 :: 64 word]) [5, 1, 4, 2, 3] mid 0 4 index0 =
       Inr (t, index))"
proof -
  have h: "(0 :: int) \<le> 0" "(0 :: int) \<le> 4" "4 < int (length [5, 1, 4, 2, 3 :: 64 word])"
    "4 < int (length [0, 0, 0, 0, 0 :: 64 word])" by simp_all
  from select_pivot_in_range [OF h] h show ?thesis by blast
qed

end
